theory Spec2Isabelle
  imports Main "HOL-Library.Char_ord" "HOL-Library.List_Lexorder"
begin

section \<open>The netlist builder of libvqm (vqm_common.c)\<close>

text \<open>
  The development follows \<^verbatim>\<open>src/EXE/SRC/include/libvqm/vqm_common.c\<close>. C \<^verbatim>\<open>int\<close>
  values (bit bounds, bit indices, array positions) are integers of HOL. Signed overflow is
  undefined in C: where the source computes with an element count or with the bit bounds
  and bit indices of a net (the capacity computation, \<^verbatim>\<open>add_assignment\<close>,
  \<^verbatim>\<open>add_concatenation_assignments\<close>, \<^verbatim>\<open>add_node\<close> and the functions that build port
  associations) the model tests that the value computed is one that an \<^verbatim>\<open>int\<close> holds,
  and ends the program with \<open>Signed_Overflow\<close> when it is not. Positions in arrays are
  bounded by the lengths of the arrays and are computed without such a test. A failed
  \<^verbatim>\<open>assert\<close> ends the program as well: every function that can reach one returns
  \<open>error + 'a\<close>, with \<open>Inl\<close> for the abort. Allocation is assumed to succeed, so the
  assertions on the result of \<^verbatim>\<open>malloc\<close> are not branches of the model.
\<close>

subsection \<open>Outcomes that end the program\<close>

datatype error =
    Assert_Failed       \<comment> \<open>an \<^verbatim>\<open>assert\<close> of the source does not hold\<close>
  | Signed_Overflow     \<comment> \<open>an \<^verbatim>\<open>int\<close> computation leaves the 32-bit range\<close>
  | Null_Dereference    \<comment> \<open>a field of a NULL pointer is read\<close>
  | Out_Of_Bounds       \<comment> \<open>an array is read outside its elements\<close>
  | Runaway_Loop        \<comment> \<open>a \<^verbatim>\<open>!=\<close>-terminated loop has stepped past its bound\<close>

subsection \<open>Array functions\<close>

definition MINIMUM_ARRAY_SIZE :: int where
  "MINIMUM_ARRAY_SIZE = 4"

definition UPPER_GROWTH_BOUND :: int where
  "UPPER_GROWTH_BOUND = 128"

definition INT_MAX :: int where
  "INT_MAX = 2147483647"

definition INT_MIN :: int where
  "INT_MIN = - 2147483648"

text \<open>The values that an \<^verbatim>\<open>int\<close> holds.\<close>

definition fits_int :: "int \<Rightarrow> bool" where
  "fits_int v = (INT_MIN \<le> v \<and> v \<le> INT_MAX)"

text \<open>
  The loop \<^verbatim>\<open>while(array_size > 0) { array_size = array_size >> 1; power_count++; }\<close>
  of \<^verbatim>\<open>calculate_array_size_using_bounds\<close>; the result is the final \<^verbatim>\<open>power_count\<close>.
\<close>

function shift_count_loop :: "int \<Rightarrow> nat \<Rightarrow> nat" where
  "shift_count_loop array_size power_count =
     (if array_size > 0 then shift_count_loop (array_size div 2) (power_count + 1)
      else power_count)"
  by pat_completeness auto
termination
  by (relation "measure (\<lambda>(array_size, power_count). nat array_size)") auto

declare shift_count_loop.simps [simp del]

definition calculate_array_size_using_bounds :: "int \<Rightarrow> error + int" where
  "calculate_array_size_using_bounds element_count =
     (if \<not> (element_count \<ge> 0) then Inl Assert_Failed
      else if element_count \<le> MINIMUM_ARRAY_SIZE then Inr MINIMUM_ARRAY_SIZE
      else if element_count > UPPER_GROWTH_BOUND then
        (if UPPER_GROWTH_BOUND * ((element_count div UPPER_GROWTH_BOUND) + 1) > INT_MAX
         then Inl Signed_Overflow
         else Inr (UPPER_GROWTH_BOUND * ((element_count div UPPER_GROWTH_BOUND) + 1)))
      else Inr (2 ^ (shift_count_loop element_count 0 + 1)))"

text \<open>
  \<^verbatim>\<open>append_array_element\<close> reallocates to the capacity above and writes the element at
  position \<^verbatim>\<open>element_count\<close>; the capacity is not observable afterwards, so an array is
  the list of its elements.
\<close>

definition append_array_element :: "'a \<Rightarrow> 'a list \<Rightarrow> 'a list" where
  "append_array_element element array = array @ [element]"

text \<open>
  The loop \<^verbatim>\<open>for(index = element_count - 1; index >= insert_index; index--)
  new_array[index+1] = new_array[index];\<close> of \<^verbatim>\<open>insert_element_at_index\<close>, by the number
  of iterations that remain: with \<open>k\<close> left, \<^verbatim>\<open>index\<close> is \<open>insert_index + k - 1\<close>.
\<close>

fun move_up_loop :: "nat \<Rightarrow> nat \<Rightarrow> 'a list \<Rightarrow> 'a list" where
  "move_up_loop insert_index 0 new_array = new_array"
| "move_up_loop insert_index (Suc k) new_array =
     move_up_loop insert_index k
       (new_array[insert_index + k + 1 := new_array ! (insert_index + k)])"

definition insert_element_at_index :: "'a \<Rightarrow> 'a list \<Rightarrow> int \<Rightarrow> error + 'a list" where
  "insert_element_at_index element array insert_index =
     (let element_count = int (length array) in
      if \<not> (insert_index \<ge> 0 \<and> insert_index \<le> element_count) then Inl Assert_Failed
      else
        (let new_array = append_array_element element array in
         if element_count \<noteq> 0 \<and> insert_index \<noteq> element_count
         then Inr ((move_up_loop (nat insert_index) (nat (element_count - insert_index)) new_array)
                     [nat insert_index := element])
         else Inr new_array))"

text \<open>A checked array read: C reads outside the elements are undefined.\<close>

definition array_get :: "'a list \<Rightarrow> int \<Rightarrow> error + 'a" where
  "array_get array index =
     (if 0 \<le> index \<and> index < int (length array) then Inr (array ! nat index)
      else Inl Out_Of_Bounds)"


subsection \<open>Netlist entities\<close>

text \<open>
  The structures are declared in \<^verbatim>\<open>vqm_dll.h\<close>, which is not among the sources; their
  fields are read off the assignments of \<^verbatim>\<open>vqm_common.c\<close>. A field \<^verbatim>\<open>f\<close> of a
  structure carries the structure's name as a prefix here, since C keeps one name space per
  structure and HOL one for all records. A \<^verbatim>\<open>t_pin_def *\<close> is an address into the store of
  pins (\<open>None\<close> for NULL): nets are shared by reference between the index, the assignments
  and the port associations, and are compared by identity.
\<close>

datatype t_boolean = T_FALSE | T_TRUE

text \<open>
  Modelled from the spec: the enumeration \<^verbatim>\<open>t_pin_def_type\<close> is declared in the missing
  header; the data model names the kinds Input, Output and InternalWire.
\<close>

datatype t_pin_def_type = PIN_INPUT | PIN_OUTPUT | PIN_WIRE

type_synonym pin_ref = nat

record t_pin_def =
  pin_name :: string
  pin_left :: int
  pin_right :: int
  pin_type :: t_pin_def_type
  pin_indexed :: t_boolean

record t_assign =
  assign_source :: "pin_ref option"
  assign_source_index :: int
  assign_target :: "pin_ref option"
  assign_target_index :: int
  assign_is_tristated :: t_boolean
  assign_tri_control :: "pin_ref option"
  assign_tri_control_index :: int
  assign_value :: int
  assign_inversion :: t_boolean

record t_node_port_association =
  assoc_port_name :: string
  assoc_port_index :: int
  assoc_associated_net :: "pin_ref option"
  assoc_wire_index :: int

record t_identifier_pass =
  ident_name :: string
  ident_indexed :: t_boolean
  ident_index :: int

datatype t_node_parameter_value =
    NODE_PARAMETER_INTEGER int
  | NODE_PARAMETER_STRING string

record t_node_parameter =
  param_name :: string
  param_value :: t_node_parameter_value

record t_node =
  node_type :: string
  node_name :: string
  node_array_of_params :: "t_node_parameter list"
  node_array_of_ports :: "t_node_port_association list"

record t_module =
  mod_name :: string
  mod_array_of_pins :: "pin_ref list"
  mod_array_of_assignments :: "t_assign list"
  mod_array_of_nodes :: "t_node list"

text \<open>What \<^verbatim>\<open>printf\<close> writes: the duplicate-net warning with the net's name and the line.\<close>

datatype message = Duplicate_Net_Warning string int

subsection \<open>The builder's state\<close>

text \<open>
  The file's globals. A \<^verbatim>\<open>t_array_ref *\<close> is \<open>None\<close> when NULL and otherwise the list of
  the array's elements. \<open>pin_store\<close> is the memory holding the pins, \<open>next_pin\<close> the address
  the next \<^verbatim>\<open>malloc\<close> of a pin returns (addresses are not reused); \<open>yylineno\<close> is the
  lexer's line counter and \<open>console\<close> the standard output.
\<close>

record vqm_state =
  module_list :: "t_module list option"
  assignment_list :: "t_assign list option"
  node_list :: "t_node list option"
  pin_list :: "pin_ref list option"
  most_recently_used_node :: "t_node option"
  pin_store :: "pin_ref \<Rightarrow> t_pin_def"
  next_pin :: pin_ref
  yylineno :: int
  console :: "message list"

text \<open>The state of a fresh process: every global NULL, nothing allocated, nothing printed.\<close>

definition vqm_initial :: "(pin_ref \<Rightarrow> t_pin_def) \<Rightarrow> int \<Rightarrow> vqm_state" where
  "vqm_initial memory line =
     \<lparr> module_list = None, assignment_list = None, node_list = None, pin_list = None,
       most_recently_used_node = None, pin_store = memory, next_pin = 0,
       yylineno = line, console = [] \<rparr>"

text \<open>
  The macros \<^verbatim>\<open>my_min\<close> and \<^verbatim>\<open>my_abs\<close> come from the missing header \<^verbatim>\<open>vqm_common.h\<close>;
  they are taken to be the minimum of two values and the absolute value.
\<close>

definition my_min :: "int \<Rightarrow> int \<Rightarrow> int" where
  "my_min a b = (if a < b then a else b)"

definition my_abs :: "int \<Rightarrow> int" where
  "my_abs a = (if a < 0 then - a else a)"

text \<open>
  \<^verbatim>\<open>strcmp\<close> compares byte strings lexicographically, bytes as unsigned values; only the
  sign of its result is used.
\<close>

definition strcmp :: "string \<Rightarrow> string \<Rightarrow> int" where
  "strcmp a b = (if a < b then - 1 else if a = b then 0 else 1)"

subsection \<open>The ordered net index\<close>

text \<open>
  The \<^verbatim>\<open>while (left <= right)\<close> loop of \<^verbatim>\<open>find_position_for_net_in_array\<close>; the result is
  the final \<^verbatim>\<open>index\<close>. The operands of \<^verbatim>\<open>(left + right) / 2\<close> are not negative there, so
  C's truncating division is \<open>div\<close>.
\<close>

function binary_search_loop ::
  "(pin_ref \<Rightarrow> t_pin_def) \<Rightarrow> string \<Rightarrow> pin_ref list \<Rightarrow> int \<Rightarrow> int \<Rightarrow> int \<Rightarrow> error + int" where
  "binary_search_loop memory name net_list left right index =
     (if left \<le> right then
        (case array_get net_list ((left + right) div 2) of
           Inl e \<Rightarrow> Inl e
         | Inr net \<Rightarrow>
             (if strcmp name (pin_name (memory net)) > 0
              then binary_search_loop memory name net_list
                     ((left + right) div 2 + 1) right ((left + right) div 2)
              else if strcmp name (pin_name (memory net)) < 0
              then binary_search_loop memory name net_list
                     left ((left + right) div 2 - 1) ((left + right) div 2)
              else Inr ((left + right) div 2)))
      else Inr index)"
  by pat_completeness auto
termination
  by (relation "measure (\<lambda>(memory, name, net_list, left, right, index). nat (right - left + 1))")
     auto

declare binary_search_loop.simps [simp del]

definition find_position_for_net_in_array ::
  "(pin_ref \<Rightarrow> t_pin_def) \<Rightarrow> string \<Rightarrow> pin_ref list option \<Rightarrow> error + int" where
  "find_position_for_net_in_array memory name net_list =
     (case net_list of
        None \<Rightarrow> Inl Assert_Failed
      | Some array \<Rightarrow>
          (let right = int (length array) - 1 in
           if right < 0 then Inr 0
           else
             (case array_get array right of
                Inl e \<Rightarrow> Inl e
              | Inr last_net \<Rightarrow>
                  if strcmp name (pin_name (memory last_net)) > 0 then Inr (int (length array))
                  else
                    (case array_get array 0 of
                       Inl e \<Rightarrow> Inl e
                     | Inr first_net \<Rightarrow>
                         if strcmp name (pin_name (memory first_net)) < 0 then Inr 0
                         else
                           (case binary_search_loop memory name array 0 right 0 of
                              Inl e \<Rightarrow> Inl e
                            | Inr position \<Rightarrow>
                                if position < int (length array) then
                                  (case array_get array position of
                                     Inl e \<Rightarrow> Inl e
                                   | Inr net \<Rightarrow>
                                       if strcmp (pin_name (memory net)) name < 0
                                       then Inr (position + 1)
                                       else Inr position)
                                else Inr position)))))"

text \<open>
  \<^verbatim>\<open>add_pin\<close>: the new pin is allocated and filled in, the index is created when it is
  NULL, and the pin is either dropped for the one already stored under its name (with a
  warning) or inserted at the position found.
\<close>

definition add_pin ::
  "string \<Rightarrow> int \<Rightarrow> int \<Rightarrow> t_pin_def_type \<Rightarrow> vqm_state \<Rightarrow> error + (pin_ref \<times> vqm_state)" where
  "add_pin name left right type st =
     (let pin = next_pin st;
          st1 = st\<lparr> next_pin := pin + 1,
                    pin_store := (pin_store st)
                      (pin := \<lparr> pin_name = name, pin_left = left, pin_right = right,
                                pin_type = type,
                                pin_indexed = (if left \<noteq> right then T_TRUE else T_FALSE) \<rparr>) \<rparr>;
          array = (case pin_list st1 of None \<Rightarrow> [] | Some a \<Rightarrow> a)
      in
        (case find_position_for_net_in_array (pin_store st1) name (Some array) of
           Inl e \<Rightarrow> Inl e
         | Inr index \<Rightarrow>
             (case (if index \<ge> 0 \<and> index < int (length array)
                    then (case array_get array index of
                            Inl e \<Rightarrow> None
                          | Inr test_pin \<Rightarrow>
                              if strcmp (pin_name (pin_store st1 test_pin)) name = 0
                              then Some test_pin else None)
                    else None) of
                Some test_pin \<Rightarrow>
                  Inr (test_pin,
                       st1\<lparr> pin_list := Some array,
                            console := console st1 @ [Duplicate_Net_Warning name (yylineno st1)] \<rparr>)
              | None \<Rightarrow>
                  (case insert_element_at_index pin array index of
                     Inl e \<Rightarrow> Inl e
                   | Inr array' \<Rightarrow> Inr (pin, st1\<lparr> pin_list := Some array' \<rparr>)))))"

definition locate_net_by_name :: "string \<Rightarrow> vqm_state \<Rightarrow> error + pin_ref option" where
  "locate_net_by_name name st =
     (case pin_list st of
        None \<Rightarrow> Inl Assert_Failed
      | Some array \<Rightarrow>
          (case find_position_for_net_in_array (pin_store st) name (Some array) of
             Inl e \<Rightarrow> Inl e
           | Inr index \<Rightarrow>
               if index < int (length array) then
                 (case array_get array index of
                    Inl e \<Rightarrow> Inl e
                  | Inr result \<Rightarrow>
                      if strcmp (pin_name (pin_store st result)) name \<noteq> 0 then Inr None
                      else Inr (Some result))
               else Inr None))"

text \<open>
  \<^verbatim>\<open>create_pins_from_list\<close>: one \<^verbatim>\<open>add_pin\<close> per identifier of the list, after which the
  \<^verbatim>\<open>indexed\<close> flag of the pin returned is overwritten with the caller's.
\<close>

fun create_pins_from_list ::
  "t_identifier_pass list \<Rightarrow> int \<Rightarrow> int \<Rightarrow> t_pin_def_type \<Rightarrow> t_boolean \<Rightarrow> vqm_state
     \<Rightarrow> error + vqm_state" where
  "create_pins_from_list [] left right type indexed st = Inr st"
| "create_pins_from_list (identifier # list) left right type indexed st =
     (case add_pin (ident_name identifier) left right type st of
        Inl e \<Rightarrow> Inl e
      | Inr (new_pin, st') \<Rightarrow>
          create_pins_from_list list left right type indexed
            (st'\<lparr> pin_store := (pin_store st')
                     (new_pin := (pin_store st' new_pin)\<lparr> pin_indexed := indexed \<rparr>) \<rparr>))"

subsection \<open>Assignments\<close>

text \<open>
  The bounds computed at the head of \<^verbatim>\<open>add_assignment\<close> for the source, the target and
  the tristate control: the pair \<open>(min, max)\<close> of a pin's \<^verbatim>\<open>left\<close> and \<^verbatim>\<open>right\<close>.
\<close>

definition pin_min_max :: "t_pin_def \<Rightarrow> int \<times> int" where
  "pin_min_max p =
     (if pin_right p > pin_left p then (pin_left p, pin_right p)
      else (pin_right p, pin_left p))"

text \<open>
  The loop \<^verbatim>\<open>for(wire_index = target_min; wire_index != target_max + 1; wire_index++)\<close>
  of the bus branch of \<^verbatim>\<open>add_assignment\<close>; \<open>source_index\<close> is the branch's own local
  variable, which hides the parameter of that name. The loop computes \<open>target_max + 1\<close>
  at every test and, when a source is present, \<open>source_index + 1\<close> at every step.
\<close>

function bus_assignment_loop ::
  "int \<Rightarrow> int \<Rightarrow> pin_ref option \<Rightarrow> int \<Rightarrow> pin_ref option \<Rightarrow> t_boolean \<Rightarrow> pin_ref option \<Rightarrow> int
     \<Rightarrow> int \<Rightarrow> t_boolean \<Rightarrow> t_assign list \<Rightarrow> error + t_assign list" where
  "bus_assignment_loop wire_index target_max source source_index target tristated tri_control
       tri_control_index constant invert array =
     (if \<not> fits_int (target_max + 1) then Inl Signed_Overflow
      else if wire_index \<noteq> target_max + 1 then
        (if wire_index > target_max + 1 then Inl Runaway_Loop
         else if source \<noteq> None \<and> \<not> fits_int (source_index + 1) then Inl Signed_Overflow
         else
           bus_assignment_loop (wire_index + 1) target_max source
             (if source \<noteq> None then source_index + 1 else source_index)
             target tristated tri_control tri_control_index constant invert
             (append_array_element
                \<lparr> assign_source = source,
                  assign_source_index = (if source \<noteq> None then source_index else 0),
                  assign_target = target,
                  assign_target_index = wire_index,
                  assign_is_tristated = tristated,
                  assign_tri_control = tri_control,
                  assign_tri_control_index = tri_control_index,
                  assign_value = constant,
                  assign_inversion = invert \<rparr>
                array))
      else Inr array)"
  by pat_completeness auto
termination
  by (relation "measure (\<lambda>(wire_index, target_max, rest). nat (target_max + 1 - wire_index))")
     auto

declare bus_assignment_loop.simps [simp del]

text \<open>
  A range assertion of \<^verbatim>\<open>add_assignment\<close>,
  \<^verbatim>\<open>assert((index >= (min-1) && index <= max))\<close>, on the bounds of a pin: \<open>None\<close> when it
  holds.
\<close>

definition window_assert :: "t_pin_def \<Rightarrow> int \<Rightarrow> error option" where
  "window_assert p index =
     (if \<not> fits_int (fst (pin_min_max p) - 1) then Some Signed_Overflow
      else if \<not> (index \<ge> fst (pin_min_max p) - 1 \<and> index \<le> snd (pin_min_max p))
      then Some Assert_Failed
      else None)"

text \<open>
  The block \<^verbatim>\<open>if (source != NULL) { ... }\<close> at the head of \<^verbatim>\<open>add_assignment\<close>: the
  index of a scalar source is replaced by \<open>source_min - 1\<close>, then the index is asserted to
  lie in the window of the source. The result is the value of the parameter
  \<^verbatim>\<open>source_index\<close> after the block.
\<close>

definition source_assert ::
  "(pin_ref \<Rightarrow> t_pin_def) \<Rightarrow> pin_ref option \<Rightarrow> int \<Rightarrow> error + int" where
  "source_assert memory source source_index =
     (case source of
        None \<Rightarrow> Inr source_index
      | Some s \<Rightarrow>
          if \<not> fits_int (pin_left (memory s) - pin_right (memory s)) then Inl Signed_Overflow
          else
            (let source_index' =
                   (if pin_left (memory s) - pin_right (memory s) = 0
                    then fst (pin_min_max (memory s)) - 1
                    else source_index)
             in case window_assert (memory s) source_index' of
                  Some e \<Rightarrow> Inl e
                | None \<Rightarrow> Inr source_index'))"

definition add_assignment ::
  "pin_ref option \<Rightarrow> int \<Rightarrow> pin_ref option \<Rightarrow> int \<Rightarrow> t_boolean \<Rightarrow> pin_ref option \<Rightarrow> int \<Rightarrow> int
     \<Rightarrow> t_boolean \<Rightarrow> vqm_state \<Rightarrow> error + vqm_state" where
  "add_assignment source source_index target target_index tristated tri_control
       tri_control_index constant invert st =
     (case target of
        None \<Rightarrow> Inl Assert_Failed
      | Some tgt \<Rightarrow>
          if \<not> (tri_control \<noteq> None \<or> tristated = T_FALSE) then Inl Assert_Failed
          else
            (case source_assert (pin_store st) source source_index of
               Inl e \<Rightarrow> Inl e
             | Inr source_index' \<Rightarrow>
                 (case window_assert (pin_store st tgt) target_index of
                    Some e \<Rightarrow> Inl e
                  | None \<Rightarrow>
                      (case (if tristated = T_TRUE
                             then (case tri_control of
                                     None \<Rightarrow> Some Null_Dereference
                                   | Some tc \<Rightarrow>
                                       window_assert (pin_store st tc) tri_control_index)
                             else None) of
                         Some e \<Rightarrow> Inl e
                       | None \<Rightarrow>
                           (let t = pin_store st tgt;
                                target_min = fst (pin_min_max t);
                                target_max = snd (pin_min_max t);
                                target_index' =
                                  (if pin_left t - pin_right t = 0 then pin_left t - 1
                                   else target_index);
                                array = (case assignment_list st of None \<Rightarrow> [] | Some a \<Rightarrow> a)
                            in
                              if \<not> fits_int (pin_left t - pin_right t) then Inl Signed_Overflow
                              else if \<not> fits_int (target_max - target_min)
                              then Inl Signed_Overflow
                              else if (target_max - target_min > 0
                                        \<and> target_index' > target_min - 1)
                                      \<or> pin_indexed t = T_FALSE
                              then
                                Inr (st\<lparr> assignment_list := Some (append_array_element
                                       \<lparr> assign_source = source,
                                         assign_source_index = source_index',
                                         assign_target = target,
                                         assign_target_index = target_index',
                                         assign_is_tristated = tristated,
                                         assign_tri_control = tri_control,
                                         assign_tri_control_index = tri_control_index,
                                         assign_value = constant,
                                         assign_inversion = invert \<rparr>
                                       array) \<rparr>)
                              else
                                (case (case source of
                                         None \<Rightarrow> Inr 0
                                       | Some s \<Rightarrow>
                                           if \<not> fits_int (snd (pin_min_max (pin_store st s))
                                                            - fst (pin_min_max (pin_store st s)))
                                           then Inl Signed_Overflow
                                           else if \<not> (target_max - target_min
                                                        \<le> snd (pin_min_max (pin_store st s))
                                                            - fst (pin_min_max (pin_store st s)))
                                           then Inl Assert_Failed
                                           else Inr (fst (pin_min_max (pin_store st s)))) of
                                   Inl e \<Rightarrow> Inl e
                                 | Inr source_min \<Rightarrow>
                                     (case bus_assignment_loop target_min target_max source
                                             source_min target tristated tri_control
                                             tri_control_index constant invert array of
                                        Inl e \<Rightarrow> Inl e
                                      | Inr array' \<Rightarrow>
                                          Inr (st\<lparr> assignment_list := Some array' \<rparr>))))))))"

text \<open>
  \<^verbatim>\<open>add_concatenation_assignments\<close>. The inner loop walks the wires of one source pin
  from its \<^verbatim>\<open>left\<close> to its \<^verbatim>\<open>right\<close>; \<open>p\<close> and \<open>t\<close> are the source and the target pin
  as read from memory, which \<^verbatim>\<open>add_assignment\<close> does not change. The result carries
  the target cursor \<^verbatim>\<open>target_wire_index\<close>.
\<close>

function concatenation_wire_loop ::
  "pin_ref \<Rightarrow> t_pin_def \<Rightarrow> int \<Rightarrow> pin_ref \<Rightarrow> t_pin_def \<Rightarrow> int \<Rightarrow> t_boolean \<Rightarrow> vqm_state
     \<Rightarrow> error + (int \<times> vqm_state)" where
  "concatenation_wire_loop pin p wire_index target_pin t target_wire_index invert_wire st =
     (if (if pin_left p > pin_right p then wire_index \<ge> pin_right p
          else wire_index \<le> pin_right p)
      then
        (case add_assignment (Some pin) wire_index (Some target_pin) target_wire_index
                T_FALSE None 0 (- 1) invert_wire st of
           Inl e \<Rightarrow> Inl e
         | Inr st' \<Rightarrow>
             if \<not> fits_int (if pin_left t > pin_right t then target_wire_index - 1
                              else target_wire_index + 1)
                \<or> \<not> fits_int (if pin_left p > pin_right p then wire_index - 1
                                  else wire_index + 1)
             then Inl Signed_Overflow
             else
               concatenation_wire_loop pin p
                 (if pin_left p > pin_right p then wire_index - 1 else wire_index + 1)
                 target_pin t
                 (if pin_left t > pin_right t then target_wire_index - 1
                  else target_wire_index + 1)
                 invert_wire st')
      else Inr (target_wire_index, st))"
  by pat_completeness auto
termination
  by (relation "measure (\<lambda>(pin, p, wire_index, rest).
                   if pin_left p > pin_right p then nat (wire_index - pin_right p + 1)
                   else nat (pin_right p - wire_index + 1))")
     auto

declare concatenation_wire_loop.simps [simp del]

fun concatenation_loop ::
  "t_identifier_pass option list \<Rightarrow> pin_ref \<Rightarrow> int \<Rightarrow> t_boolean \<Rightarrow> vqm_state
     \<Rightarrow> error + vqm_state" where
  "concatenation_loop [] target_pin target_wire_index invert_wire st = Inr st"
| "concatenation_loop (None # con_array) target_pin target_wire_index invert_wire st =
     (if \<not> fits_int
              (if pin_left (pin_store st target_pin) > pin_right (pin_store st target_pin)
               then target_wire_index - 1 else target_wire_index + 1)
      then Inl Signed_Overflow
      else
        concatenation_loop con_array target_pin
          (if pin_left (pin_store st target_pin) > pin_right (pin_store st target_pin)
           then target_wire_index - 1 else target_wire_index + 1)
          invert_wire st)"
| "concatenation_loop (Some source # con_array) target_pin target_wire_index invert_wire st =
     (case locate_net_by_name (ident_name source) st of
        Inl e \<Rightarrow> Inl e
      | Inr None \<Rightarrow> Inl Null_Dereference
      | Inr (Some pin) \<Rightarrow>
          (case concatenation_wire_loop pin (pin_store st pin) (pin_left (pin_store st pin))
                  target_pin (pin_store st target_pin) target_wire_index invert_wire st of
             Inl e \<Rightarrow> Inl e
           | Inr (target_wire_index', st') \<Rightarrow>
               concatenation_loop con_array target_pin target_wire_index' invert_wire st'))"

definition add_concatenation_assignments ::
  "t_identifier_pass option list \<Rightarrow> pin_ref option \<Rightarrow> t_boolean \<Rightarrow> vqm_state
     \<Rightarrow> error + vqm_state" where
  "add_concatenation_assignments con_array target_pin invert_wire st =
     (case target_pin of
        None \<Rightarrow> Inl Assert_Failed
      | Some tp \<Rightarrow>
          concatenation_loop con_array tp (pin_left (pin_store st tp)) invert_wire st)"

subsection \<open>Nodes and port associations\<close>

text \<open>
  The inner loop \<^verbatim>\<open>for(counter = index+1; counter < index + offset; counter++)\<close> of
  \<^verbatim>\<open>add_node\<close>. The name of a new association is copied by \<^verbatim>\<open>strcpy\<close> out of a block
  that \<^verbatim>\<open>malloc\<close> has just returned: its bytes are indeterminate, and \<open>uninitialised\<close>
  stands for them.
\<close>

function add_node_expand_loop ::
  "string \<Rightarrow> int \<Rightarrow> int \<Rightarrow> pin_ref option \<Rightarrow> int \<Rightarrow> int \<Rightarrow> t_node_port_association list
     \<Rightarrow> error + t_node_port_association list" where
  "add_node_expand_loop uninitialised counter bound net wire_index change m_ports =
     (if counter < bound then
        (case insert_element_at_index
                \<lparr> assoc_port_name = uninitialised,
                  assoc_port_index = counter,
                  assoc_associated_net = net,
                  assoc_wire_index = wire_index \<rparr>
                m_ports counter of
           Inl e \<Rightarrow> Inl e
         | Inr m_ports' \<Rightarrow>
             add_node_expand_loop uninitialised (counter + 1) bound net
               (wire_index + change) change m_ports')
      else Inr m_ports)"
  by pat_completeness auto
termination
  by (relation "measure (\<lambda>(uninitialised, counter, bound, rest). nat (bound - counter))") auto

declare add_node_expand_loop.simps [simp del]

text \<open>
  The outer loop \<^verbatim>\<open>for(index = 0; index < m_ports->array_size; index++)\<close> of
  \<^verbatim>\<open>add_node\<close>. The array grows while it is scanned, by fewer elements than the index
  advances; the two lemmas on lengths are what its termination needs. The branch that
  expands an association computes \<^verbatim>\<open>my_abs\<close> of the difference of the bounds and moves
  \<^verbatim>\<open>index\<close> by it.
\<close>

lemma length_move_up_loop: "length (move_up_loop insert_index k new_array) = length new_array"
  by (induction k arbitrary: new_array) simp_all

lemma length_insert_element_at_index:
  "insert_element_at_index element array insert_index = Inr array'
     \<Longrightarrow> length array' = Suc (length array)"
  by (auto simp: insert_element_at_index_def Let_def append_array_element_def
        length_move_up_loop split: if_splits)

lemma length_add_node_expand_loop:
  "add_node_expand_loop uninitialised counter bound net wire_index change m_ports = Inr m_ports'
     \<Longrightarrow> int (length m_ports') = int (length m_ports) + max 0 (bound - counter)"
proof (induction uninitialised counter bound net wire_index change m_ports
       rule: add_node_expand_loop.induct)
  case (1 uninitialised counter bound net wire_index change m_ports)
  show ?case
  proof (cases "counter < bound")
    case True
    then obtain m_ports1 where
      ins: "insert_element_at_index
              \<lparr> assoc_port_name = uninitialised, assoc_port_index = counter,
                assoc_associated_net = net, assoc_wire_index = wire_index \<rparr>
              m_ports counter = Inr m_ports1"
      and rest: "add_node_expand_loop uninitialised (counter + 1) bound net
                   (wire_index + change) change m_ports1 = Inr m_ports'"
      using "1.prems" by (subst (asm) add_node_expand_loop.simps) (auto split: sum.splits)
    have "int (length m_ports') = int (length m_ports1) + max 0 (bound - (counter + 1))"
      using "1.IH"[OF True ins rest] .
    moreover have "length m_ports1 = Suc (length m_ports)"
      using ins by (rule length_insert_element_at_index)
    ultimately show ?thesis using True by simp
  next
    case False
    then have "m_ports' = m_ports"
      using "1.prems" by (subst (asm) add_node_expand_loop.simps) simp
    then show ?thesis using False by simp
  qed
qed

function add_node_loop ::
  "(pin_ref \<Rightarrow> t_pin_def) \<Rightarrow> string \<Rightarrow> int \<Rightarrow> t_node_port_association list
     \<Rightarrow> error + t_node_port_association list" where
  "add_node_loop memory uninitialised index m_ports =
     (if index < int (length m_ports) then
        (case array_get m_ports index of
           Inl e \<Rightarrow> Inl e
         | Inr association \<Rightarrow>
             (case assoc_associated_net association of
                None \<Rightarrow> Inl Null_Dereference
              | Some net \<Rightarrow>
                  (if \<not> fits_int (pin_left (memory net) - pin_right (memory net))
                   then Inl Signed_Overflow
                   else if pin_left (memory net) - pin_right (memory net) \<noteq> 0
                      \<and> assoc_port_index association = - 1
                      \<and> assoc_wire_index association
                          < my_min (pin_left (memory net)) (pin_right (memory net))
                   then
                     (if \<not> fits_int (my_abs (pin_left (memory net) - pin_right (memory net)))
                         \<or> \<not> fits_int
                                (index
                                   + (my_abs (pin_left (memory net) - pin_right (memory net)) + 1)
                                   + 1)
                      then Inl Signed_Overflow
                      else
                        (case add_node_expand_loop uninitialised (index + 1)
                                (index + my_abs (pin_left (memory net) - pin_right (memory net)))
                                (Some net)
                                (pin_left (memory net)
                                   + (if pin_left (memory net) > pin_right (memory net)
                                      then - 1 else 1))
                                (if pin_left (memory net) > pin_right (memory net)
                                 then - 1 else 1)
                                (m_ports[nat index :=
                                   association
                                     \<lparr> assoc_port_index :=
                                         my_abs (pin_left (memory net) - pin_right (memory net))
                                           - 1,
                                       assoc_wire_index := pin_left (memory net) \<rparr>]) of
                           Inl e \<Rightarrow> Inl e
                         | Inr m_ports' \<Rightarrow>
                             add_node_loop memory uninitialised
                               (index
                                  + (my_abs (pin_left (memory net) - pin_right (memory net)) + 1)
                                  + 1)
                               m_ports'))
                   else add_node_loop memory uninitialised (index + 1) m_ports)))
      else Inr m_ports)"
  by pat_completeness auto
termination
proof (relation "measure (\<lambda>(memory, uninitialised, index, m_ports).
                   nat (int (length m_ports) - index))", goal_cases)
  case 1
  show ?case by simp
next
  case (2 memory uninitialised index m_ports association net m_ports')
  have "int (length m_ports')
          = int (length (m_ports[nat index := association
                   \<lparr> assoc_port_index :=
                       my_abs (pin_left (memory net) - pin_right (memory net)) - 1,
                     assoc_wire_index := pin_left (memory net) \<rparr>]))
            + max 0 (index + my_abs (pin_left (memory net) - pin_right (memory net))
                       - (index + 1))"
    using 2 by (intro length_add_node_expand_loop) simp
  then show ?case using 2 by (simp add: my_abs_def split: if_splits)
next
  case 3
  then show ?case by simp
qed

declare add_node_loop.simps [simp del]

text \<open>
  \<^verbatim>\<open>add_node\<close>: the scan above, then the node is appended to the node list and becomes
  the most recently used node.
\<close>

definition add_node ::
  "string \<Rightarrow> string \<Rightarrow> string \<Rightarrow> t_node_port_association list option \<Rightarrow> vqm_state
     \<Rightarrow> error + vqm_state" where
  "add_node uninitialised type name ports st =
     (case ports of
        None \<Rightarrow> Inl Assert_Failed
      | Some m_ports \<Rightarrow>
          (case add_node_loop (pin_store st) uninitialised 0 m_ports of
             Inl e \<Rightarrow> Inl e
           | Inr m_ports' \<Rightarrow>
               (let my_node = \<lparr> node_type = type, node_name = name,
                                node_array_of_params = [], node_array_of_ports = m_ports' \<rparr>
                in Inr (st\<lparr> node_list :=
                             Some (append_array_element my_node
                                     (case node_list st of None \<Rightarrow> [] | Some a \<Rightarrow> a)),
                           most_recently_used_node := Some my_node \<rparr>))))"

text \<open>
  \<^verbatim>\<open>create_node_port_association\<close>; the port name is a string the caller has allocated.
\<close>

definition create_node_port_association ::
  "(pin_ref \<Rightarrow> t_pin_def) \<Rightarrow> string \<Rightarrow> int \<Rightarrow> pin_ref option \<Rightarrow> int
     \<Rightarrow> error + t_node_port_association" where
  "create_node_port_association memory port_name port_index pin wire_index =
     (case pin of
        None \<Rightarrow> Inl Assert_Failed
      | Some p \<Rightarrow>
          if \<not> ((wire_index \<ge> pin_left (memory p) \<and> wire_index \<le> pin_right (memory p))
                \<or> (wire_index \<ge> pin_right (memory p) \<and> wire_index \<le> pin_left (memory p)))
          then Inl Assert_Failed
          else Inr \<lparr> assoc_port_name = port_name, assoc_port_index = port_index,
                     assoc_associated_net = pin, assoc_wire_index = wire_index \<rparr>)"

text \<open>
  The loop \<^verbatim>\<open>for(index = pin->left+direction; index != pin->right + direction;
  index += direction)\<close> of \<^verbatim>\<open>associate_identifier_with_port_name\<close>, with \<open>left\<close> and
  \<open>right\<close> the bounds of the pin, from which the direction is computed. For an
  identifier that is not indexed the function first computes
  \<^verbatim>\<open>local_index = my_min(pin->left, pin->right)-1\<close>.
\<close>

function associate_bus_loop ::
  "(pin_ref \<Rightarrow> t_pin_def) \<Rightarrow> string \<Rightarrow> pin_ref \<Rightarrow> int \<Rightarrow> int \<Rightarrow> int \<Rightarrow> int
     \<Rightarrow> t_node_port_association list \<Rightarrow> error + t_node_port_association list" where
  "associate_bus_loop memory port_name pin left right index port result =
     (if \<not> fits_int (right + (if left > right then - 1 else 1)) then Inl Signed_Overflow
      else if index \<noteq> right + (if left > right then - 1 else 1) then
        (if (if left > right then index < right - 1 else index > right + 1)
         then Inl Runaway_Loop
         else
           (case create_node_port_association memory port_name port (Some pin) index of
              Inl e \<Rightarrow> Inl e
            | Inr association \<Rightarrow>
                associate_bus_loop memory port_name pin left right
                  (index + (if left > right then - 1 else 1)) (port - 1)
                  (append_array_element association result)))
      else Inr result)"
  by pat_completeness auto
termination
  by (relation "measure (\<lambda>(memory, port_name, pin, left, right, index, rest).
                   if left > right then nat (index - (right - 1))
                   else nat (right + 1 - index))")
     auto

declare associate_bus_loop.simps [simp del]

definition associate_identifier_with_port_name ::
  "t_identifier_pass \<Rightarrow> string \<Rightarrow> int \<Rightarrow> vqm_state
     \<Rightarrow> error + t_node_port_association list option" where
  "associate_identifier_with_port_name ident port_name port_index st =
     (case locate_net_by_name (ident_name ident) st of
        Inl e \<Rightarrow> Inl e
      | Inr None \<Rightarrow> Inr None
      | Inr (Some pin) \<Rightarrow>
          (let p = pin_store st pin in
           if ident_indexed ident = T_TRUE then
             (case create_node_port_association (pin_store st) port_name port_index (Some pin)
                     (ident_index ident) of
                Inl e \<Rightarrow> Inl e
              | Inr association \<Rightarrow> Inr (Some (append_array_element association [])))
           else if \<not> fits_int (my_min (pin_left p) (pin_right p) - 1)
                   \<or> \<not> fits_int (pin_left p - pin_right p)
           then Inl Signed_Overflow
           else if pin_left p - pin_right p = 0 then
             (case create_node_port_association (pin_store st) port_name port_index (Some pin)
                     (pin_left p) of
                Inl e \<Rightarrow> Inl e
              | Inr association \<Rightarrow> Inr (Some (append_array_element association [])))
           else if \<not> fits_int (my_abs (pin_left p - pin_right p)) then Inl Signed_Overflow
           else
             (case create_node_port_association (pin_store st) port_name
                     (my_abs (pin_left p - pin_right p)) (Some pin) (pin_left p) of
                Inl e \<Rightarrow> Inl e
              | Inr association \<Rightarrow>
                  (case associate_bus_loop (pin_store st) port_name pin (pin_left p) (pin_right p)
                          (pin_left p + (if pin_left p > pin_right p then - 1 else 1))
                          (my_abs (pin_left p - pin_right p) - 1)
                          (append_array_element association []) of
                     Inl e \<Rightarrow> Inl e
                   | Inr result \<Rightarrow> Inr (Some result)))))"

text \<open>
  \<^verbatim>\<open>create_array_of_net_to_port_assignments\<close>. Its inner loop \<^verbatim>\<open>for(pin_index =
  pin->left; pin_index != pin->right + offset; pin_index += offset)\<close> appends one indexed
  identifier per wire of a bus; an entry that is NULL, or names no net, is appended as
  NULL.
\<close>

function flatten_bus_loop ::
  "string \<Rightarrow> int \<Rightarrow> int \<Rightarrow> int \<Rightarrow> t_identifier_pass option list
     \<Rightarrow> error + t_identifier_pass option list" where
  "flatten_bus_loop name left right pin_index array_of_identifiers =
     (if \<not> fits_int (right + (if left > right then - 1 else 1)) then Inl Signed_Overflow
      else if pin_index \<noteq> right + (if left > right then - 1 else 1) then
        (if (if left > right then pin_index < right - 1 else pin_index > right + 1)
         then Inl Runaway_Loop
         else
           flatten_bus_loop name left right
             (pin_index + (if left > right then - 1 else 1))
             (append_array_element
                (Some \<lparr> ident_name = name, ident_indexed = T_TRUE, ident_index = pin_index \<rparr>)
                array_of_identifiers))
      else Inr array_of_identifiers)"
  by pat_completeness auto
termination
  by (relation "measure (\<lambda>(name, left, right, pin_index, rest).
                   if left > right then nat (pin_index - (right - 1))
                   else nat (right + 1 - pin_index))")
     auto

declare flatten_bus_loop.simps [simp del]

fun flatten_loop ::
  "t_identifier_pass option list \<Rightarrow> t_identifier_pass option list \<Rightarrow> vqm_state
     \<Rightarrow> error + t_identifier_pass option list" where
  "flatten_loop [] array_of_identifiers st = Inr array_of_identifiers"
| "flatten_loop (None # con_array) array_of_identifiers st =
     flatten_loop con_array (append_array_element None array_of_identifiers) st"
| "flatten_loop (Some source # con_array) array_of_identifiers st =
     (case locate_net_by_name (ident_name source) st of
        Inl e \<Rightarrow> Inl e
      | Inr None \<Rightarrow> flatten_loop con_array (append_array_element None array_of_identifiers) st
      | Inr (Some pin) \<Rightarrow>
          (let p = pin_store st pin in
           if \<not> fits_int (pin_left p - pin_right p)
              \<or> \<not> fits_int (my_abs (pin_left p - pin_right p))
           then Inl Signed_Overflow
           else if my_abs (pin_left p - pin_right p) > 0 \<and> ident_indexed source = T_FALSE then
             (case flatten_bus_loop (pin_name p) (pin_left p) (pin_right p) (pin_left p)
                     array_of_identifiers of
                Inl e \<Rightarrow> Inl e
              | Inr array_of_identifiers' \<Rightarrow> flatten_loop con_array array_of_identifiers' st)
           else
             flatten_loop con_array
               (append_array_element (Some source) array_of_identifiers) st))"

definition create_array_of_net_to_port_assignments ::
  "t_identifier_pass option list \<Rightarrow> vqm_state \<Rightarrow> error + t_identifier_pass option list" where
  "create_array_of_net_to_port_assignments con_array st = flatten_loop con_array [] st"

text \<open>
  \<^verbatim>\<open>create_wire_port_connections\<close>. The loop runs \<open>index\<close> over the flattened list;
  \<open>rest\<close> is the part of the list from \<open>index\<close> on, \<open>array_size\<close> the length of the whole.
\<close>

fun wire_port_loop ::
  "t_identifier_pass option list \<Rightarrow> int \<Rightarrow> int \<Rightarrow> string \<Rightarrow> t_node_port_association list
     \<Rightarrow> vqm_state \<Rightarrow> error + t_node_port_association list" where
  "wire_port_loop [] array_size index port_name connections st = Inr connections"
| "wire_port_loop (None # rest) array_size index port_name connections st =
     wire_port_loop rest array_size (index + 1) port_name connections st"
| "wire_port_loop (Some ident # rest) array_size index port_name connections st =
     (case associate_identifier_with_port_name ident port_name (array_size - index - 1) st of
        Inl e \<Rightarrow> Inl e
      | Inr None \<Rightarrow> wire_port_loop rest array_size (index + 1) port_name connections st
      | Inr (Some association) \<Rightarrow>
          wire_port_loop rest array_size (index + 1) port_name (connections @ association) st)"

definition create_wire_port_connections ::
  "t_identifier_pass option list \<Rightarrow> string \<Rightarrow> vqm_state
     \<Rightarrow> error + t_node_port_association list" where
  "create_wire_port_connections concat_array port_name st =
     (case create_array_of_net_to_port_assignments concat_array st of
        Inl e \<Rightarrow> Inl e
      | Inr identifier_list \<Rightarrow>
          wire_port_loop identifier_list (int (length identifier_list)) 0 port_name [] st)"

subsection \<open>Modules\<close>

text \<open>
  \<^verbatim>\<open>add_module\<close> receives the addresses of three list variables; the grammar that calls
  it is not among the sources, and the lists it passes are the builder's own
  \<^verbatim>\<open>pin_list\<close>, \<^verbatim>\<open>assignment_list\<close> and \<^verbatim>\<open>node_list\<close>, as the specification's
  finalize operation says.
\<close>

definition add_module :: "string \<Rightarrow> vqm_state \<Rightarrow> vqm_state" where
  "add_module name st =
     (let new_module =
            \<lparr> mod_name = name,
              mod_array_of_pins = (case pin_list st of None \<Rightarrow> [] | Some a \<Rightarrow> a),
              mod_array_of_assignments = (case assignment_list st of None \<Rightarrow> [] | Some a \<Rightarrow> a),
              mod_array_of_nodes = (case node_list st of None \<Rightarrow> [] | Some a \<Rightarrow> a) \<rparr>
      in st\<lparr> module_list :=
               Some (append_array_element new_module
                       (case module_list st of None \<Rightarrow> [] | Some a \<Rightarrow> a)),
             assignment_list := None,
             pin_list := None,
             node_list := None \<rparr>)"

section \<open>Vocabulary of the properties\<close>

subsection \<open>Positions in the index\<close>

text \<open>
  The names of the nets of an index in the order of the array, the name at a position,
  and what the two searches establish: a probe of the binary search is a position whose
  name decides on which side the searched name lies, an insertion point is the position
  that separates the smaller names from the others.
\<close>

definition net_key :: "(pin_ref \<Rightarrow> t_pin_def) \<Rightarrow> pin_ref list \<Rightarrow> int \<Rightarrow> string" where
  "net_key memory array i = pin_name (memory (array ! nat i))"

definition index_names :: "(pin_ref \<Rightarrow> t_pin_def) \<Rightarrow> pin_ref list \<Rightarrow> string list" where
  "index_names memory array = map (\<lambda>r. pin_name (memory r)) array"

definition probe_ok :: "(pin_ref \<Rightarrow> t_pin_def) \<Rightarrow> string \<Rightarrow> pin_ref list \<Rightarrow> int \<Rightarrow> bool" where
  "probe_ok memory name array p =
     (0 \<le> p \<and> p < int (length array) \<and>
      (net_key memory array p = name
       \<or> (net_key memory array p < name
           \<and> (\<forall>i. p < i \<and> i < int (length array) \<longrightarrow> name < net_key memory array i))
       \<or> (name < net_key memory array p
           \<and> (\<forall>i. 0 \<le> i \<and> i < p \<longrightarrow> net_key memory array i < name))))"

definition insertion_point ::
  "(pin_ref \<Rightarrow> t_pin_def) \<Rightarrow> string \<Rightarrow> pin_ref list \<Rightarrow> int \<Rightarrow> bool" where
  "insertion_point memory name array p =
     (0 \<le> p \<and> p \<le> int (length array)
      \<and> (\<forall>i. 0 \<le> i \<and> i < p \<longrightarrow> net_key memory array i < name)
      \<and> (\<forall>i. p \<le> i \<and> i < int (length array) \<longrightarrow> name \<le> net_key memory array i))"

subsection \<open>Sequences of declarations\<close>

text \<open>
  The index as a list (empty when NULL) and its invariant: the names ascend strictly and
  every pin of the index is allocated. \<open>declare_nets\<close> runs \<^verbatim>\<open>add_pin\<close> over a list of
  declarations and collects the references returned; \<open>first_declaration ds i\<close> says that
  no declaration before the \<open>i\<close>-th has its name.
\<close>

definition pin_array :: "vqm_state \<Rightarrow> pin_ref list" where
  "pin_array st = (case pin_list st of None \<Rightarrow> [] | Some a \<Rightarrow> a)"

definition index_inv :: "vqm_state \<Rightarrow> bool" where
  "index_inv st =
     (sorted_wrt (<) (index_names (pin_store st) (pin_array st))
      \<and> (\<forall>r \<in> set (pin_array st). r < next_pin st))"

definition new_pin_def :: "string \<Rightarrow> int \<Rightarrow> int \<Rightarrow> t_pin_def_type \<Rightarrow> t_pin_def" where
  "new_pin_def name left right type =
     \<lparr> pin_name = name, pin_left = left, pin_right = right, pin_type = type,
       pin_indexed = (if left \<noteq> right then T_TRUE else T_FALSE) \<rparr>"

definition net_names :: "vqm_state \<Rightarrow> string list" where
  "net_names st = index_names (pin_store st) (pin_array st)"

type_synonym net_declaration = "string \<times> int \<times> int \<times> t_pin_def_type"

fun declare_nets ::
  "net_declaration list \<Rightarrow> vqm_state \<Rightarrow> error + (pin_ref list \<times> vqm_state)" where
  "declare_nets [] st = Inr ([], st)"
| "declare_nets ((name, left, right, type) # ds) st =
     (case add_pin name left right type st of
        Inl e \<Rightarrow> Inl e
      | Inr (pin, st') \<Rightarrow>
          (case declare_nets ds st' of
             Inl e \<Rightarrow> Inl e
           | Inr (pins, st'') \<Rightarrow> Inr (pin # pins, st'')))"

definition blank_memory :: "pin_ref \<Rightarrow> t_pin_def" where
  "blank_memory = (\<lambda>r. \<lparr> pin_name = [], pin_left = 0, pin_right = 0, pin_type = PIN_WIRE,
                          pin_indexed = T_FALSE \<rparr>)"

definition first_declaration :: "net_declaration list \<Rightarrow> nat \<Rightarrow> bool" where
  "first_declaration ds i = (i < length ds \<and> fst (ds ! i) \<notin> set (map fst (take i ds)))"

definition declared_pin :: "net_declaration \<Rightarrow> t_pin_def" where
  "declared_pin d = (case d of (name, left, right, type) \<Rightarrow> new_pin_def name left right type)"

subsection \<open>Assignments\<close>

text \<open>
  The assignment sequence as a list, the conditions that \<^verbatim>\<open>add_assignment\<close> tests (its
  range assertions, the test that selects the single-assignment branch, the width
  assertion of the bus branch) and the records that its two branches append.
\<close>

definition assignments :: "vqm_state \<Rightarrow> t_assign list" where
  "assignments st = (case assignment_list st of None \<Rightarrow> [] | Some a \<Rightarrow> a)"

text \<open>
  The window \<open>[min - 1, max]\<close> of a net, whose least value stands for the whole net, and
  the source index that an assignment records: the whole-net value for a scalar source,
  the supplied index otherwise.
\<close>

definition index_in_window :: "t_pin_def \<Rightarrow> int \<Rightarrow> bool" where
  "index_in_window p index =
     (index \<ge> fst (pin_min_max p) - 1 \<and> index \<le> snd (pin_min_max p))"

definition source_index_used :: "(pin_ref \<Rightarrow> t_pin_def) \<Rightarrow> pin_ref option \<Rightarrow> int \<Rightarrow> int" where
  "source_index_used memory source source_index =
     (case source of
        None \<Rightarrow> source_index
      | Some s \<Rightarrow>
          if pin_left (memory s) - pin_right (memory s) = 0
          then fst (pin_min_max (memory s)) - 1
          else source_index)"

text \<open>
  The nets on which no \<^verbatim>\<open>int\<close> computation of the builder overflows: both bounds lie
  strictly between \<open>INT_MIN\<close> and \<open>INT_MAX\<close>, so that \<open>min - 1\<close> and \<open>max + 1\<close> are
  \<^verbatim>\<open>int\<close> values, and so is the distance \<open>max - min\<close>. \<open>nets_in_range\<close> says this of
  the nets that a call of \<^verbatim>\<open>add_assignment\<close> reads: the source and the target when
  present, and the tristate control when the call is tristated.
\<close>

definition pin_in_range :: "t_pin_def \<Rightarrow> bool" where
  "pin_in_range p =
     (INT_MIN < fst (pin_min_max p) \<and> snd (pin_min_max p) < INT_MAX
      \<and> snd (pin_min_max p) - fst (pin_min_max p) \<le> INT_MAX)"

definition nets_in_range ::
  "(pin_ref \<Rightarrow> t_pin_def) \<Rightarrow> pin_ref option \<Rightarrow> pin_ref option \<Rightarrow> t_boolean
     \<Rightarrow> pin_ref option \<Rightarrow> bool" where
  "nets_in_range memory source target tristated tri_control =
     ((case source of None \<Rightarrow> True | Some s \<Rightarrow> pin_in_range (memory s))
      \<and> (case target of None \<Rightarrow> True | Some t \<Rightarrow> pin_in_range (memory t))
      \<and> (tristated = T_FALSE
          \<or> (case tri_control of None \<Rightarrow> True | Some c \<Rightarrow> pin_in_range (memory c))))"

definition expanded_assignment ::
  "pin_ref option \<Rightarrow> int \<Rightarrow> pin_ref option \<Rightarrow> int \<Rightarrow> t_boolean \<Rightarrow> pin_ref option \<Rightarrow> int \<Rightarrow> int
     \<Rightarrow> t_boolean \<Rightarrow> nat \<Rightarrow> t_assign" where
  "expanded_assignment source source_min target target_min tristated tri_control
       tri_control_index constant invert k =
     \<lparr> assign_source = source,
       assign_source_index = (if source \<noteq> None then source_min + int k else 0),
       assign_target = target,
       assign_target_index = target_min + int k,
       assign_is_tristated = tristated,
       assign_tri_control = tri_control,
       assign_tri_control_index = tri_control_index,
       assign_value = constant,
       assign_inversion = invert \<rparr>"

definition single_assignment_path :: "t_pin_def \<Rightarrow> int \<Rightarrow> bool" where
  "single_assignment_path t target_index =
     ((pin_left t \<noteq> pin_right t \<and> target_index > fst (pin_min_max t) - 1)
      \<or> pin_indexed t = T_FALSE)"

definition passes_validation ::
  "(pin_ref \<Rightarrow> t_pin_def) \<Rightarrow> pin_ref option \<Rightarrow> int \<Rightarrow> pin_ref option \<Rightarrow> int \<Rightarrow> t_boolean
     \<Rightarrow> pin_ref option \<Rightarrow> int \<Rightarrow> bool" where
  "passes_validation memory source source_index target target_index tristated tri_control
       tri_control_index =
     ((case target of None \<Rightarrow> False | Some t \<Rightarrow> index_in_window (memory t) target_index)
      \<and> (case source of
            None \<Rightarrow> True
          | Some s \<Rightarrow> pin_left (memory s) = pin_right (memory s)
                      \<or> index_in_window (memory s) source_index)
      \<and> (tristated = T_FALSE
          \<or> (case tri_control of
                None \<Rightarrow> False
              | Some c \<Rightarrow> index_in_window (memory c) tri_control_index)))"

definition bus_width_ok :: "(pin_ref \<Rightarrow> t_pin_def) \<Rightarrow> pin_ref option \<Rightarrow> t_pin_def \<Rightarrow> bool" where
  "bus_width_ok memory source t =
     (case source of
        None \<Rightarrow> True
      | Some s \<Rightarrow> snd (pin_min_max t) - fst (pin_min_max t)
                    \<le> snd (pin_min_max (memory s)) - fst (pin_min_max (memory s)))"

definition single_assignment ::
  "(pin_ref \<Rightarrow> t_pin_def) \<Rightarrow> pin_ref option \<Rightarrow> int \<Rightarrow> pin_ref \<Rightarrow> int \<Rightarrow> t_boolean
     \<Rightarrow> pin_ref option \<Rightarrow> int \<Rightarrow> int \<Rightarrow> t_boolean \<Rightarrow> t_assign" where
  "single_assignment memory source source_index t target_index tristated tri_control
       tri_control_index constant invert =
     \<lparr> assign_source = source,
       assign_source_index = source_index_used memory source source_index,
       assign_target = Some t,
       assign_target_index = (if pin_left (memory t) = pin_right (memory t)
                              then pin_left (memory t) - 1 else target_index),
       assign_is_tristated = tristated,
       assign_tri_control = tri_control,
       assign_tri_control_index = tri_control_index,
       assign_value = constant,
       assign_inversion = invert \<rparr>"

subsection \<open>Example states\<close>

text \<open>
  The nets of the specification's example: \<open>a\<close> declared \<open>[3:0]\<close>, \<open>b\<close> declared \<open>[2:0]\<close>
  and the scalar \<open>c\<close>, declared in this order in a fresh process; they are allocated at
  the addresses 0, 1 and 2.
\<close>

definition abc_nets :: vqm_state where
  "abc_nets =
     (vqm_initial
        (blank_memory
           (0 := new_pin_def ''a'' 3 0 PIN_WIRE,
            1 := new_pin_def ''b'' 2 0 PIN_WIRE,
            2 := new_pin_def ''c'' 0 0 PIN_WIRE)) 1)
       \<lparr> pin_list := Some [0, 1, 2], next_pin := 3 \<rparr>"

text \<open>
  A wire-to-wire assignment as \<^verbatim>\<open>add_concatenation_assignments\<close> requests it: not
  tristated, no control net, and \<open>- 1\<close> for the unused constant.
\<close>

definition wire_to_wire :: "pin_ref \<Rightarrow> int \<Rightarrow> pin_ref \<Rightarrow> int \<Rightarrow> t_boolean \<Rightarrow> t_assign" where
  "wire_to_wire source source_index target target_index invert =
     \<lparr> assign_source = Some source, assign_source_index = source_index,
       assign_target = Some target, assign_target_index = target_index,
       assign_is_tristated = T_FALSE, assign_tri_control = None,
       assign_tri_control_index = 0, assign_value = - 1,
       assign_inversion = invert \<rparr>"

text \<open>
  Two scalar nets, \<open>t\<close> declared through \<^verbatim>\<open>create_pins_from_list\<close> with the \<^verbatim>\<open>indexed\<close>
  flag set by the caller and then \<open>s\<close> through \<^verbatim>\<open>add_pin\<close>; \<open>t\<close> is at address 0 and
  \<open>s\<close> at address 1.
\<close>

definition indexed_scalar_nets :: vqm_state where
  "indexed_scalar_nets =
     (vqm_initial
        (blank_memory
           (0 := (new_pin_def ''t'' 0 0 PIN_WIRE)\<lparr> pin_indexed := T_TRUE \<rparr>,
            1 := new_pin_def ''s'' 0 0 PIN_WIRE)) 1)
       \<lparr> pin_list := Some [1, 0], next_pin := 2 \<rparr>"

subsection \<open>Flattened concatenations\<close>

text \<open>The positions of a flattened list that hold an identifier, in ascending order.\<close>

definition occupied :: "'a option list \<Rightarrow> nat list" where
  "occupied xs = filter (\<lambda>k. xs ! k \<noteq> None) [0..<length xs]"

text \<open>
  What \<^verbatim>\<open>create_array_of_net_to_port_assignments\<close> lets through: an identifier that
  names a net and is either bit-indexed or names a scalar net.
\<close>

definition single_bit_entry :: "vqm_state \<Rightarrow> t_identifier_pass option \<Rightarrow> bool" where
  "single_bit_entry st e =
     (case e of
        None \<Rightarrow> True
      | Some ident \<Rightarrow>
          (case locate_net_by_name (ident_name ident) st of
             Inr (Some pin) \<Rightarrow>
               ident_indexed ident = T_TRUE
               \<or> pin_left (pin_store st pin) = pin_right (pin_store st pin)
           | _ \<Rightarrow> False))"

text \<open>The wires of a net in its natural order, from \<^verbatim>\<open>left\<close> toward \<^verbatim>\<open>right\<close>.\<close>

definition bus_wires :: "t_pin_def \<Rightarrow> int list" where
  "bus_wires p =
     map (\<lambda>k. if pin_left p > pin_right p then pin_left p - int k else pin_left p + int k)
         [0..<Suc (nat (my_abs (pin_left p - pin_right p)))]"

text \<open>
  What one entry of a concatenation contributes to the flattened sequence: a stub, or a
  name of no known net, one NULL entry; a bus named as a whole, one indexed identifier
  per wire in the natural order of the bus; any other identifier, itself.
\<close>

definition flattened_entry ::
  "vqm_state \<Rightarrow> t_identifier_pass option \<Rightarrow> t_identifier_pass option list" where
  "flattened_entry st e =
     (case e of
        None \<Rightarrow> [None]
      | Some source \<Rightarrow>
          (case locate_net_by_name (ident_name source) st of
             Inr (Some pin) \<Rightarrow>
               if pin_left (pin_store st pin) \<noteq> pin_right (pin_store st pin)
                  \<and> ident_indexed source = T_FALSE
               then map (\<lambda>w. Some \<lparr> ident_name = pin_name (pin_store st pin),
                                       ident_indexed = T_TRUE, ident_index = w \<rparr>)
                        (bus_wires (pin_store st pin))
               else [Some source]
           | _ \<Rightarrow> [None]))"

text \<open>
  What one entry of the flattened sequence contributes to the connections of a port, given
  the port bit index of its position: a NULL entry nothing, an identifier the association
  of the port bit with the net of that name, at the identifier's index when it has one
  and at the net's \<^verbatim>\<open>left\<close> otherwise.
\<close>

definition bound_entry ::
  "vqm_state \<Rightarrow> string \<Rightarrow> int \<Rightarrow> t_identifier_pass option
     \<Rightarrow> t_node_port_association list" where
  "bound_entry st port_name port_index e =
     (case e of
        None \<Rightarrow> []
      | Some ident \<Rightarrow>
          (case locate_net_by_name (ident_name ident) st of
             Inr (Some pin) \<Rightarrow>
               [\<lparr> assoc_port_name = port_name,
                  assoc_port_index = port_index,
                  assoc_associated_net = Some pin,
                  assoc_wire_index = (if ident_indexed ident = T_TRUE then ident_index ident
                                      else pin_left (pin_store st pin)) \<rparr>]
           | _ \<Rightarrow> []))"

subsection \<open>Port associations of a bus; the node example; node and module sequences\<close>


text \<open>
  What \<^verbatim>\<open>create_node_port_association\<close> asserts of every association it returns: the
  net is not NULL and the wire index lies within the bounds of the net; the bounds are
  such that \<^verbatim>\<open>add_node\<close> computes their difference without overflow.
\<close>

definition constructed :: "(pin_ref \<Rightarrow> t_pin_def) \<Rightarrow> t_node_port_association \<Rightarrow> bool" where
  "constructed memory a =
     (case assoc_associated_net a of
        None \<Rightarrow> False
      | Some net \<Rightarrow>
          fits_int (pin_left (memory net) - pin_right (memory net))
          \<and> ((assoc_wire_index a \<ge> pin_left (memory net)
                \<and> assoc_wire_index a \<le> pin_right (memory net))
               \<or> (assoc_wire_index a \<ge> pin_right (memory net)
                   \<and> assoc_wire_index a \<le> pin_left (memory net))))"

text \<open>The 2-bit bus \<open>w\<close>, declared \<open>[1:0]\<close> in a fresh process; it is at address 0.\<close>

definition w_net :: vqm_state where
  "w_net =
     (vqm_initial (blank_memory (0 := new_pin_def ''w'' 1 0 PIN_WIRE)) 1)
       \<lparr> pin_list := Some [0], next_pin := 1 \<rparr>"

definition nodes :: "vqm_state \<Rightarrow> t_node list" where
  "nodes st = (case node_list st of None \<Rightarrow> [] | Some a \<Rightarrow> a)"

definition modules :: "vqm_state \<Rightarrow> t_module list" where
  "modules st = (case module_list st of None \<Rightarrow> [] | Some a \<Rightarrow> a)"

section \<open>Properties\<close>

subsection \<open>Capacity of the growable array\<close>

lemma shift_count_loop_Suc:
  "shift_count_loop n (Suc pc) = Suc (shift_count_loop n pc)"
proof (induction n pc rule: shift_count_loop.induct)
  case (1 array_size power_count)
  show ?case
  proof (cases "array_size > 0")
    case True
    have "shift_count_loop array_size (Suc power_count)
            = shift_count_loop (array_size div 2) (Suc (power_count + 1))"
      using True by (subst shift_count_loop.simps) simp
    also have "\<dots> = Suc (shift_count_loop (array_size div 2) (power_count + 1))"
      using "1.IH" True by simp
    also have "\<dots> = Suc (shift_count_loop array_size power_count)"
      using True by (subst (2) shift_count_loop.simps) simp
    finally show ?thesis .
  next
    case False
    then show ?thesis by (simp add: shift_count_loop.simps)
  qed
qed

lemma shift_count_loop_step:
  "0 < n \<Longrightarrow> shift_count_loop n 0 = Suc (shift_count_loop (n div 2) 0)"
  by (subst shift_count_loop.simps) (simp add: shift_count_loop_Suc)

text \<open>The loop counts the binary digits of a positive \<open>n\<close>.\<close>

lemma shift_count_loop_bounds:
  "0 < n \<Longrightarrow> (2::int) ^ shift_count_loop n 0 \<le> 2 * n \<and> n < 2 ^ shift_count_loop n 0"
proof (induction "nat n" arbitrary: n rule: less_induct)
  case less
  show ?case
  proof (cases "n div 2 > 0")
    case True
    have "nat (n div 2) < nat n" using less.prems by simp
    from less.hyps[OF this True]
    have ih: "(2::int) ^ shift_count_loop (n div 2) 0 \<le> 2 * (n div 2)"
             "n div 2 < 2 ^ shift_count_loop (n div 2) 0"
      by simp_all
    have lo: "2 * (n div 2) \<le> n" and hi: "n \<le> 2 * (n div 2) + 1" by simp_all
    show ?thesis
      using ih lo hi by (simp add: shift_count_loop_step[OF less.prems])
  next
    case False
    hence one: "n = 1" using less.prems by linarith
    have "shift_count_loop 1 0 = 1"
      by (simp add: shift_count_loop.simps)
    thus ?thesis by (simp add: one)
  qed
qed

text \<open>
  Claim C2, as the specification words it, fails: for five elements the smallest power of
  two that is at least \<open>max 4 5\<close> is 8, and the function returns 16.
\<close>

theorem capacity_five_counterexample:
  "calculate_array_size_using_bounds 5 = Inr 16
   \<and> (8::int) = 2 ^ 3 \<and> max 4 5 \<le> (8::int) \<and> (8::int) < 16"
  by (simp add: calculate_array_size_using_bounds_def MINIMUM_ARRAY_SIZE_def
        UPPER_GROWTH_BOUND_def shift_count_loop.simps)

lemma capacity_small:
  "0 \<le> n \<Longrightarrow> n \<le> 4 \<Longrightarrow> calculate_array_size_using_bounds n = Inr 4"
  by (simp add: calculate_array_size_using_bounds_def MINIMUM_ARRAY_SIZE_def)

lemma capacity_middle:
  assumes "4 < n" and "n \<le> 128"
  shows "calculate_array_size_using_bounds n = Inr (2 ^ (shift_count_loop n 0 + 1))"
    and "2 * n < (2::int) ^ (shift_count_loop n 0 + 1)"
    and "(2::int) ^ (shift_count_loop n 0 + 1) \<le> 4 * n"
proof -
  have pos: "0 < n" using assms by simp
  show "calculate_array_size_using_bounds n = Inr (2 ^ (shift_count_loop n 0 + 1))"
    using assms by (simp add: calculate_array_size_using_bounds_def MINIMUM_ARRAY_SIZE_def
        UPPER_GROWTH_BOUND_def)
  show "2 * n < (2::int) ^ (shift_count_loop n 0 + 1)"
    and "(2::int) ^ (shift_count_loop n 0 + 1) \<le> 4 * n"
    using shift_count_loop_bounds[OF pos] by simp_all
qed

lemma capacity_linear:
  assumes "128 < n" and "n \<le> INT_MAX - 128"
  shows "calculate_array_size_using_bounds n = Inr (128 * (n div 128 + 1))"
    and "n < 128 * (n div 128 + 1)"
    and "128 * (n div 128 + 1) \<le> n + 128"
proof -
  define q where "q = n div 128"
  define r where "r = n mod 128"
  have m: "n = 128 * q + r" unfolding q_def r_def by simp
  have r: "0 \<le> r" "r < 128" unfolding r_def by simp_all
  have nov: "\<not> 128 * (q + 1) > INT_MAX"
  proof -
    have "128 * q \<le> n" using m r by simp
    hence "128 * q + 128 \<le> 2147483647" using assms(2) unfolding INT_MAX_def by simp
    thus ?thesis unfolding INT_MAX_def by simp
  qed
  show "calculate_array_size_using_bounds n = Inr (128 * (n div 128 + 1))"
    using assms(1) nov unfolding q_def
    by (simp add: calculate_array_size_using_bounds_def MINIMUM_ARRAY_SIZE_def
        UPPER_GROWTH_BOUND_def)
  show "n < 128 * (n div 128 + 1)" and "128 * (n div 128 + 1) \<le> n + 128"
    using m r unfolding q_def[symmetric] by simp_all
qed

text \<open>
  Claim C2, amended. For an element count \<open>n\<close> from 0 to \<open>INT_MAX - 128\<close> the capacity is
  4 when \<open>n \<le> 4\<close>; when \<open>4 < n \<le> 128\<close> it is the power of two \<open>c\<close> with
  \<open>2 * n < c \<le> 4 * n\<close>, that is the smallest power of two above \<open>2 * n\<close>; when
  \<open>n > 128\<close> it is the multiple \<open>c\<close> of 128 with \<open>n < c \<le> n + 128\<close>, that is the
  smallest multiple of 128 strictly above \<open>n\<close>.
\<close>

theorem capacity_policy:
  assumes "0 \<le> n" and "n \<le> INT_MAX - 128"
  shows "\<exists>c. calculate_array_size_using_bounds n = Inr c \<and>
           (if n \<le> 4 then c = 4
            else if n \<le> 128 then (\<exists>k. c = 2 ^ k) \<and> 2 * n < c \<and> c \<le> 4 * n
            else 128 dvd c \<and> n < c \<and> c \<le> n + 128)"
proof -
  consider (small) "n \<le> 4" | (middle) "4 < n" "n \<le> 128" | (linear) "128 < n" by linarith
  then show ?thesis
  proof cases
    case small
    then show ?thesis using capacity_small[OF assms(1)] by simp
  next
    case middle
    have p: "\<exists>k. (2::int) ^ (shift_count_loop n 0 + 1) = 2 ^ k" by blast
    show ?thesis using middle p capacity_middle[OF middle] by simp
  next
    case linear
    show ?thesis using linear capacity_linear[OF linear assms(2)] by simp
  qed
qed

theorem capacity_policy_witness:
  "(0::int) \<le> 300 \<and> 300 \<le> INT_MAX - 128
   \<and> (\<exists>c. calculate_array_size_using_bounds 300 = Inr c \<and> 128 dvd c \<and> 300 < c \<and> c \<le> 428)"
  using capacity_policy[of 300] by (simp add: INT_MAX_def)

text \<open>
  The capacity always exceeds the count it is computed for, so the element that
  \<^verbatim>\<open>append_array_element\<close> writes at position \<^verbatim>\<open>element_count\<close> lies inside the block.
\<close>

lemma capacity_exceeds_count:
  assumes "0 \<le> n" and "n < INT_MAX - 128"
  shows "\<exists>c. calculate_array_size_using_bounds (n + 1) = Inr c \<and> n < c"
proof -
  consider (small) "n + 1 \<le> 4" | (middle) "4 < n + 1" "n + 1 \<le> 128" | (linear) "128 < n + 1"
    by linarith
  then show ?thesis
  proof cases
    case small
    then show ?thesis using capacity_small[of "n + 1"] assms(1) by simp
  next
    case middle
    show ?thesis using capacity_middle[OF middle] by simp
  next
    case linear
    have "n + 1 \<le> INT_MAX - 128" using assms(2) by simp
    from capacity_linear[OF linear this] show ?thesis by simp
  qed
qed

subsection \<open>Insertion into an array\<close>

lemma strcmp_simps:
  "strcmp a b > 0 \<longleftrightarrow> b < a" "strcmp a b < 0 \<longleftrightarrow> a < b" "strcmp a b = 0 \<longleftrightarrow> a = b"
  "strcmp a b \<noteq> 0 \<longleftrightarrow> a \<noteq> b"
  by (auto simp: strcmp_def)

lemma move_up_loop_nth:
  "insert_index + k < length new_array \<Longrightarrow> j < length new_array \<Longrightarrow>
   move_up_loop insert_index k new_array ! j
     = (if insert_index < j \<and> j \<le> insert_index + k then new_array ! (j - 1) else new_array ! j)"
proof (induction k arbitrary: new_array)
  case 0
  then show ?case by auto
next
  case (Suc k)
  let ?a = "new_array[insert_index + k + 1 := new_array ! (insert_index + k)]"
  have "move_up_loop insert_index (Suc k) new_array ! j = move_up_loop insert_index k ?a ! j"
    by simp
  also have "\<dots> = (if insert_index < j \<and> j \<le> insert_index + k then ?a ! (j - 1) else ?a ! j)"
    using Suc.prems by (intro Suc.IH) simp_all
  also have "\<dots> = (if insert_index < j \<and> j \<le> insert_index + Suc k
                     then new_array ! (j - 1) else new_array ! j)"
    using Suc.prems by (auto simp: nth_list_update)
  finally show ?case .
qed

lemma insert_element_at_index_eq:
  assumes "0 \<le> insert_index" "insert_index \<le> int (length array)"
  shows "insert_element_at_index element array insert_index
           = Inr (take (nat insert_index) array @ element # drop (nat insert_index) array)"
proof (cases "length array \<noteq> 0 \<and> insert_index \<noteq> int (length array)")
  case False
  then show ?thesis using assms
    by (auto simp: insert_element_at_index_def append_array_element_def)
next
  case True
  define i where "i = nat insert_index"
  define k where "k = length array - i"
  define a where "a = array @ [element]"
  have i: "i < length array" "insert_index = int i" using assms True by (auto simp: i_def)
  have k: "i + k < length a" "nat (int (length array) - insert_index) = k"
    using i by (auto simp: k_def a_def)
  have "(move_up_loop i k a)[i := element] = take i array @ element # drop i array"
  proof (rule nth_equalityI)
    show "length ((move_up_loop i k a)[i := element]) = length (take i array @ element # drop i array)"
      using i by (simp add: length_move_up_loop a_def)
  next
    fix j assume "j < length ((move_up_loop i k a)[i := element])"
    then have j: "j < length a" by (simp add: length_move_up_loop)
    then have j': "j \<le> length array" by (simp add: a_def)
    show "(move_up_loop i k a)[i := element] ! j = (take i array @ element # drop i array) ! j"
    proof (cases "j = i")
      case True
      then show ?thesis using j i by (simp add: length_move_up_loop nth_append)
    next
      case False
      have "(move_up_loop i k a)[i := element] ! j = move_up_loop i k a ! j"
        using False by simp
      also have "\<dots> = (if i < j \<and> j \<le> i + k then a ! (j - 1) else a ! j)"
        using k j by (intro move_up_loop_nth)
      also have "\<dots> = (take i array @ element # drop i array) ! j"
        using False i j' by (auto simp: a_def k_def nth_append min_def nth_Cons')
      finally show ?thesis .
    qed
  qed
  moreover have "insert_element_at_index element array insert_index
                   = Inr ((move_up_loop i k a)[i := element])"
    using True assms k(2)
    by (simp add: insert_element_at_index_def append_array_element_def Let_def a_def i_def)
  ultimately show ?thesis by (simp add: i_def)
qed

subsection \<open>The binary search\<close>

lemma net_key_mono:
  assumes "sorted_wrt (<) (index_names memory array)"
    and "0 \<le> i" "i < j" "j < int (length array)"
  shows "net_key memory array i < net_key memory array j"
proof -
  have "nat i < nat j" "nat j < length (index_names memory array)"
    using assms by (simp_all add: index_names_def)
  then have "index_names memory array ! nat i < index_names memory array ! nat j"
    using assms(1) by (simp add: sorted_wrt_iff_nth_less)
  then show ?thesis using assms by (simp add: index_names_def net_key_def)
qed

lemma array_get_in_range:
  "0 \<le> i \<Longrightarrow> i < int (length array) \<Longrightarrow> array_get array i = Inr (array ! nat i)"
  by (simp add: array_get_def)

lemma binary_search_loop_correct:
  assumes "sorted_wrt (<) (index_names memory array)"
    and "0 \<le> left" "right < int (length array)"
    and "\<forall>i. 0 \<le> i \<and> i < left \<longrightarrow> net_key memory array i < name"
    and "\<forall>i. right < i \<and> i < int (length array) \<longrightarrow> name < net_key memory array i"
    and "left \<le> right \<or> probe_ok memory name array index"
  shows "\<exists>p. binary_search_loop memory name array left right index = Inr p
             \<and> probe_ok memory name array p"
  using assms
proof (induction memory name array left right index rule: binary_search_loop.induct)
  case (1 memory name net_list left right index)
  note srt = "1.prems"(1)
  show ?case
  proof (cases "left \<le> right")
    case False
    then show ?thesis using "1.prems"(6)
      by (subst binary_search_loop.simps) simp
  next
    case True
    let ?mid = "(left + right) div 2"
    have mid: "left \<le> ?mid" "?mid \<le> right" using True by simp_all
    have range: "0 \<le> ?mid" "?mid < int (length net_list)" using mid "1.prems"(2,3) by simp_all
    have get: "array_get net_list ?mid = Inr (net_list ! nat ?mid)"
      using range by (rule array_get_in_range)
    have key: "pin_name (memory (net_list ! nat ?mid)) = net_key memory net_list ?mid"
      by (simp add: net_key_def)
    consider (gt) "net_key memory net_list ?mid < name"
      | (lt) "name < net_key memory net_list ?mid"
      | (eq) "net_key memory net_list ?mid = name"
      by fastforce
    then show ?thesis
    proof cases
      case gt
      have step: "binary_search_loop memory name net_list left right index
                    = binary_search_loop memory name net_list (?mid + 1) right ?mid"
        using True gt get
        by (subst binary_search_loop.simps) (simp add: key strcmp_simps)
      have lo: "\<forall>i. 0 \<le> i \<and> i < ?mid + 1 \<longrightarrow> net_key memory net_list i < name"
      proof (intro allI impI)
        fix i assume i: "0 \<le> i \<and> i < ?mid + 1"
        show "net_key memory net_list i < name"
        proof (cases "i = ?mid")
          case True then show ?thesis using gt by simp
        next
          case False
          then have "net_key memory net_list i < net_key memory net_list ?mid"
            using i range by (intro net_key_mono[OF srt]) simp_all
          then show ?thesis using gt by simp
        qed
      qed
      have fin: "?mid + 1 \<le> right \<or> probe_ok memory name net_list ?mid"
      proof (cases "?mid + 1 \<le> right")
        case True then show ?thesis by simp
      next
        case False
        then have "?mid = right" using mid by simp
        then show ?thesis using gt range "1.prems"(5) by (simp add: probe_ok_def)
      qed
      have "\<exists>p. binary_search_loop memory name net_list (?mid + 1) right ?mid = Inr p
                 \<and> probe_ok memory name net_list p"
        using True get gt srt range "1.prems"(3,5) lo fin
        by (intro "1.IH"(1)[of "net_list ! nat ?mid"])
           (simp_all add: key strcmp_simps)
      then show ?thesis using step by simp
    next
      case lt
      then have ngt: "\<not> net_key memory net_list ?mid < name" by simp
      have step: "binary_search_loop memory name net_list left right index
                    = binary_search_loop memory name net_list left (?mid - 1) ?mid"
        using True lt ngt get
        by (subst binary_search_loop.simps) (simp add: key strcmp_simps)
      have hi: "\<forall>i. ?mid - 1 < i \<and> i < int (length net_list) \<longrightarrow> name < net_key memory net_list i"
      proof (intro allI impI)
        fix i assume i: "?mid - 1 < i \<and> i < int (length net_list)"
        show "name < net_key memory net_list i"
        proof (cases "i = ?mid")
          case True then show ?thesis using lt by simp
        next
          case False
          then have "net_key memory net_list ?mid < net_key memory net_list i"
            using i range by (intro net_key_mono[OF srt]) simp_all
          then show ?thesis using lt by simp
        qed
      qed
      have fin: "left \<le> ?mid - 1 \<or> probe_ok memory name net_list ?mid"
      proof (cases "left \<le> ?mid - 1")
        case True then show ?thesis by simp
      next
        case False
        then have "?mid = left" using mid by simp
        then show ?thesis using lt range "1.prems"(4) by (simp add: probe_ok_def)
      qed
      have "\<exists>p. binary_search_loop memory name net_list left (?mid - 1) ?mid = Inr p
                 \<and> probe_ok memory name net_list p"
        using True get lt ngt srt range "1.prems"(2,4) hi fin
        by (intro "1.IH"(2)[of "net_list ! nat ?mid"])
           (simp_all add: key strcmp_simps)
      then show ?thesis using step by simp
    next
      case eq
      have "binary_search_loop memory name net_list left right index = Inr ?mid"
        using True eq get
        by (subst binary_search_loop.simps) (simp add: key strcmp_simps)
      then show ?thesis using eq range by (simp add: probe_ok_def)
    qed
  qed
qed

lemma probe_ok_position:
  assumes srt: "sorted_wrt (<) (index_names memory array)"
    and p: "probe_ok memory name array p"
  shows "insertion_point memory name array
           (if net_key memory array p < name then p + 1 else p)"
proof -
  have range: "0 \<le> p" "p < int (length array)" using p by (simp_all add: probe_ok_def)
  have below: "net_key memory array i < net_key memory array p" if "0 \<le> i" "i < p" for i
    using that range by (intro net_key_mono[OF srt]) simp_all
  have above: "net_key memory array p < net_key memory array i"
    if "p < i" "i < int (length array)" for i
    using that range by (intro net_key_mono[OF srt]) simp_all
  consider (eq) "net_key memory array p = name"
    | (lt) "net_key memory array p < name"
           "\<forall>i. p < i \<and> i < int (length array) \<longrightarrow> name < net_key memory array i"
    | (gt) "name < net_key memory array p"
           "\<forall>i. 0 \<le> i \<and> i < p \<longrightarrow> net_key memory array i < name"
    using p by (auto simp: probe_ok_def)
  then show ?thesis
  proof cases
    case eq
    have "name \<le> net_key memory array i" if "p \<le> i" "i < int (length array)" for i
    proof (cases "i = p")
      case True then show ?thesis using eq by simp
    next
      case False then show ?thesis using above[of i] that eq by simp
    qed
    then show ?thesis using eq range below by (auto simp: insertion_point_def)
  next
    case lt
    have "net_key memory array i < name" if "0 \<le> i" "i < p + 1" for i
    proof (cases "i = p")
      case True then show ?thesis using lt by simp
    next
      case False then show ?thesis using below[of i] that lt by simp
    qed
    moreover have "name \<le> net_key memory array i" if "p + 1 \<le> i" "i < int (length array)" for i
      using lt(2) that by (simp add: less_imp_le)
    ultimately show ?thesis using lt range by (auto simp: insertion_point_def)
  next
    case gt
    have "name \<le> net_key memory array i" if "p \<le> i" "i < int (length array)" for i
    proof (cases "i = p")
      case True then show ?thesis using gt by simp
    next
      case False then show ?thesis using above[of i] that gt by simp
    qed
    then show ?thesis using gt range by (auto simp: insertion_point_def)
  qed
qed

lemma find_position_correct:
  assumes srt: "sorted_wrt (<) (index_names memory array)"
  shows "\<exists>p. find_position_for_net_in_array memory name (Some array) = Inr p
             \<and> insertion_point memory name array p"
proof (cases "array = []")
  case True
  then show ?thesis
    by (auto simp: find_position_for_net_in_array_def insertion_point_def)
next
  case False
  let ?n = "int (length array)"
  have n: "0 < ?n" using False by simp
  have get_last: "array_get array (?n - 1) = Inr (array ! nat (?n - 1))"
    using n by (intro array_get_in_range) simp_all
  have get_first: "array_get array 0 = Inr (array ! nat 0)"
    using n by (intro array_get_in_range) simp_all
  have key_last: "pin_name (memory (array ! nat (?n - 1))) = net_key memory array (?n - 1)"
    and key_first: "pin_name (memory (array ! 0)) = net_key memory array 0"
    by (simp_all add: net_key_def)
  consider (after) "net_key memory array (?n - 1) < name"
    | (before) "\<not> net_key memory array (?n - 1) < name" "name < net_key memory array 0"
    | (inside) "\<not> net_key memory array (?n - 1) < name" "\<not> name < net_key memory array 0"
    by blast
  then show ?thesis
  proof cases
    case after
    have "net_key memory array i < name" if "0 \<le> i" "i < ?n" for i
    proof (cases "i = ?n - 1")
      case True then show ?thesis using after by simp
    next
      case False
      then have "net_key memory array i < net_key memory array (?n - 1)"
        using that by (intro net_key_mono[OF srt]) simp_all
      then show ?thesis using after by simp
    qed
    then have "insertion_point memory name array ?n"
      by (auto simp: insertion_point_def)
    moreover have "find_position_for_net_in_array memory name (Some array) = Inr ?n"
      using n after get_last
      by (simp add: find_position_for_net_in_array_def Let_def key_last strcmp_simps)
    ultimately show ?thesis by simp
  next
    case before
    have "name \<le> net_key memory array i" if "0 \<le> i" "i < ?n" for i
    proof (cases "i = 0")
      case True then show ?thesis using before by simp
    next
      case False
      then have "net_key memory array 0 < net_key memory array i"
        using that by (intro net_key_mono[OF srt]) simp_all
      then show ?thesis using before by simp
    qed
    then have "insertion_point memory name array 0"
      by (auto simp: insertion_point_def)
    moreover have "find_position_for_net_in_array memory name (Some array) = Inr 0"
      using n before get_last get_first
      by (simp add: find_position_for_net_in_array_def Let_def key_last key_first strcmp_simps)
    ultimately show ?thesis by simp
  next
    case inside
    have "\<exists>p. binary_search_loop memory name array 0 (?n - 1) 0 = Inr p
               \<and> probe_ok memory name array p"
      using n by (intro binary_search_loop_correct[OF srt]) auto
    then obtain p where loop: "binary_search_loop memory name array 0 (?n - 1) 0 = Inr p"
      and p: "probe_ok memory name array p" by blast
    have range: "0 \<le> p" "p < ?n" using p by (simp_all add: probe_ok_def)
    have get_p: "array_get array p = Inr (array ! nat p)"
      using range by (rule array_get_in_range)
    have key_p: "pin_name (memory (array ! nat p)) = net_key memory array p"
      by (simp add: net_key_def)
    have "find_position_for_net_in_array memory name (Some array)
            = Inr (if net_key memory array p < name then p + 1 else p)"
      using n inside get_last get_first loop range get_p
      by (simp add: find_position_for_net_in_array_def Let_def key_last key_first key_p
            strcmp_simps)
    then show ?thesis using probe_ok_position[OF srt p] by simp
  qed
qed

subsection \<open>Declaring a net\<close>

lemma index_names_nth:
  "0 \<le> i \<Longrightarrow> i < int (length array) \<Longrightarrow> index_names memory array ! nat i = net_key memory array i"
  by (simp add: index_names_def net_key_def)

lemma insertion_point_take:
  assumes "insertion_point memory name array p" "x \<in> set (take (nat p) (index_names memory array))"
  shows "x < name"
proof -
  from assms(2) obtain i where i: "i < length (take (nat p) (index_names memory array))"
    and x: "x = take (nat p) (index_names memory array) ! i"
    by (auto simp: in_set_conv_nth)
  have r: "i < nat p" "i < length array" using i by (simp_all add: index_names_def)
  then have "x = net_key memory array (int i)"
    using x by (simp add: index_names_def net_key_def)
  moreover have "net_key memory array (int i) < name"
    using assms(1) r by (simp add: insertion_point_def)
  ultimately show ?thesis by simp
qed

lemma insertion_point_drop:
  assumes "insertion_point memory name array p" "x \<in> set (drop (nat p) (index_names memory array))"
  shows "name \<le> x"
proof -
  from assms(2) obtain i where i: "i < length (drop (nat p) (index_names memory array))"
    and x: "x = drop (nat p) (index_names memory array) ! i"
    by (auto simp: in_set_conv_nth)
  have p: "0 \<le> p" using assms(1) by (simp add: insertion_point_def)
  have r: "nat p + i < length array" using i by (simp add: index_names_def)
  then have "x = net_key memory array (p + int i)"
    using x p by (simp add: index_names_def net_key_def nat_add_distrib)
  moreover have "name \<le> net_key memory array (p + int i)"
    using assms(1) r p by (simp add: insertion_point_def)
  ultimately show ?thesis by simp
qed

lemma sorted_wrt_insert_at:
  fixes xs :: "'a::linorder list"
  assumes "sorted_wrt (<) xs"
    and "\<And>x. x \<in> set (take k xs) \<Longrightarrow> x < v"
    and "\<And>x. x \<in> set (drop k xs) \<Longrightarrow> v < x"
  shows "sorted_wrt (<) (take k xs @ v # drop k xs)"
proof -
  have "sorted_wrt (<) (take k xs @ drop k xs)" using assms(1) by simp
  then have "sorted_wrt (<) (take k xs)" "sorted_wrt (<) (drop k xs)"
    "\<forall>x\<in>set (take k xs). \<forall>y\<in>set (drop k xs). x < y"
    unfolding sorted_wrt_append by simp_all
  then show ?thesis using assms(2,3)
    by (auto simp: sorted_wrt_append)
qed

lemma insertion_point_found:
  assumes srt: "sorted_wrt (<) (index_names memory array)"
    and ip: "insertion_point memory name array p"
    and r: "r \<in> set array" "pin_name (memory r) = name"
  shows "p < int (length array) \<and> array ! nat p = r"
proof -
  from r(1) obtain i where i: "i < length array" "array ! i = r"
    by (auto simp: in_set_conv_nth)
  have key: "net_key memory array (int i) = name" using i r(2) by (simp add: net_key_def)
  have p: "0 \<le> p" using ip by (simp add: insertion_point_def)
  have "\<not> int i < p"
  proof
    assume "int i < p"
    then have "net_key memory array (int i) < name" using ip by (simp add: insertion_point_def)
    then show False using key by simp
  qed
  moreover have "\<not> p < int i"
  proof
    assume a: "p < int i"
    then have "net_key memory array p < net_key memory array (int i)"
      using p i by (intro net_key_mono[OF srt]) simp_all
    moreover have "name \<le> net_key memory array p"
      using ip a i by (simp add: insertion_point_def)
    ultimately show False using key by simp
  qed
  ultimately have "p = int i" by simp
  then show ?thesis using i by simp
qed

lemma insertion_point_not_found:
  assumes ip: "insertion_point memory name array p"
    and new: "name \<notin> set (index_names memory array)"
    and x: "x \<in> set (drop (nat p) (index_names memory array))"
  shows "name < x"
proof -
  have "name \<le> x" using ip x by (rule insertion_point_drop)
  moreover have "x \<in> set (index_names memory array)" using x by (rule in_set_dropD)
  ultimately show ?thesis using new by (cases "x = name") auto
qed

lemma index_names_fresh:
  assumes "\<forall>r \<in> set array. r < pin"
  shows "index_names (memory(pin := v)) array = index_names memory array"
  using assms by (auto simp: index_names_def)

lemma net_key_fresh:
  assumes "\<forall>r \<in> set array. r < pin" "0 \<le> i" "i < int (length array)"
  shows "net_key (memory(pin := v)) array i = net_key memory array i"
proof -
  have "array ! nat i \<in> set array" using assms(2,3) by simp
  then show ?thesis using assms(1) by (auto simp: net_key_def)
qed

lemma insertion_point_fresh:
  assumes "\<forall>r \<in> set array. r < pin"
  shows "insertion_point (memory(pin := v)) name array p = insertion_point memory name array p"
proof -
  have k: "0 \<le> i \<Longrightarrow> i < int (length array) \<Longrightarrow>
           net_key (memory(pin := v)) array i = net_key memory array i" for i
    using net_key_fresh[OF assms] by blast
  have a: "(\<forall>i. 0 \<le> i \<and> i < p \<longrightarrow> net_key (memory(pin := v)) array i < name)
           = (\<forall>i. 0 \<le> i \<and> i < p \<longrightarrow> net_key memory array i < name)"
    if "p \<le> int (length array)"
    using that k by (intro all_cong1 imp_cong refl) auto
  have b: "(\<forall>i. p \<le> i \<and> i < int (length array) \<longrightarrow> name \<le> net_key (memory(pin := v)) array i)
           = (\<forall>i. p \<le> i \<and> i < int (length array) \<longrightarrow> name \<le> net_key memory array i)"
    if "0 \<le> p"
    using that k by (intro all_cong1 imp_cong refl) auto
  show ?thesis unfolding insertion_point_def using a b by blast
qed

lemma pin_array_Some: "pin_list st = Some a \<Longrightarrow> pin_array st = a"
  by (simp add: pin_array_def)

lemma pin_array_None: "pin_list st = None \<Longrightarrow> pin_array st = []"
  by (simp add: pin_array_def)

lemma add_pin_duplicate:
  assumes inv: "index_inv st"
    and r: "r \<in> set (pin_array st)" "pin_name (pin_store st r) = name"
  shows "add_pin name left right type st
           = Inr (r, st\<lparr> next_pin := next_pin st + 1,
                          pin_store := (pin_store st)(next_pin st := new_pin_def name left right type),
                          console := console st @ [Duplicate_Net_Warning name (yylineno st)] \<rparr>)"
proof -
  obtain arr where pl: "pin_list st = Some arr"
    using r(1) by (cases "pin_list st") (simp_all add: pin_array_def)
  have arr: "pin_array st = arr" using pl by (rule pin_array_Some)
  let ?pin = "next_pin st"
  let ?mem = "(pin_store st)(?pin := new_pin_def name left right type)"
  have fresh: "\<forall>r \<in> set arr. r < ?pin" using inv arr by (simp add: index_inv_def)
  have names: "index_names ?mem arr = index_names (pin_store st) arr"
    using fresh by (rule index_names_fresh)
  have srt: "sorted_wrt (<) (index_names ?mem arr)"
    using inv names arr by (simp add: index_inv_def)
  obtain p where fp: "find_position_for_net_in_array ?mem name (Some arr) = Inr p"
    and ip: "insertion_point ?mem name arr p"
    using find_position_correct[OF srt] by blast
  have ra: "r \<in> set arr" using r(1) arr by simp
  have rm: "pin_name (?mem r) = name" using r(2) ra fresh by auto
  have found: "p < int (length arr)" "arr ! nat p = r"
    using insertion_point_found[OF srt ip ra rm] by simp_all
  have p0: "0 \<le> p" using ip by (simp add: insertion_point_def)
  have get: "array_get arr p = Inr r" using found p0 by (simp add: array_get_def)
  have st_eq: "st\<lparr>pin_list := Some arr\<rparr> = st" using pl by simp
  have cmp: "strcmp (pin_name (?mem r)) name = 0" using rm by (simp only: strcmp_simps)
  have "add_pin name left right type st
          = Inr (r, (st\<lparr>pin_list := Some arr\<rparr>)\<lparr> next_pin := next_pin st + 1,
                 pin_store := ?mem,
                 console := console st @ [Duplicate_Net_Warning name (yylineno st)] \<rparr>)"
    unfolding add_pin_def Let_def new_pin_def_def
    using fp get found(1) p0 cmp by (simp add: pl new_pin_def_def)
  then show ?thesis unfolding st_eq .
qed

lemma add_pin_new:
  assumes inv: "index_inv st"
    and new: "name \<notin> set (index_names (pin_store st) (pin_array st))"
  shows "\<exists>p. insertion_point (pin_store st) name (pin_array st) p \<and>
           add_pin name left right type st
             = Inr (next_pin st,
                    st\<lparr> next_pin := next_pin st + 1,
                        pin_store := (pin_store st)(next_pin st := new_pin_def name left right type),
                        pin_list := Some (take (nat p) (pin_array st) @ next_pin st
                                            # drop (nat p) (pin_array st)) \<rparr>)"
proof -
  define arr where "arr = pin_array st"
  have pl: "(case pin_list st of None \<Rightarrow> [] | Some a \<Rightarrow> a) = arr"
    by (simp add: arr_def pin_array_def)
  let ?pin = "next_pin st"
  let ?mem = "(pin_store st)(?pin := new_pin_def name left right type)"
  have fresh: "\<forall>r \<in> set arr. r < ?pin" using inv by (simp add: index_inv_def arr_def)
  have names: "index_names ?mem arr = index_names (pin_store st) arr"
    using fresh by (rule index_names_fresh)
  have srt: "sorted_wrt (<) (index_names ?mem arr)"
    using inv names by (simp add: index_inv_def arr_def)
  obtain p where fp: "find_position_for_net_in_array ?mem name (Some arr) = Inr p"
    and ip: "insertion_point ?mem name arr p"
    using find_position_correct[OF srt] by blast
  have ip': "insertion_point (pin_store st) name arr p"
    using ip insertion_point_fresh[OF fresh] by simp
  have p: "0 \<le> p" "p \<le> int (length arr)" using ip by (simp_all add: insertion_point_def)
  have ins: "insert_element_at_index ?pin arr p = Inr (take (nat p) arr @ ?pin # drop (nat p) arr)"
    using p by (rule insert_element_at_index_eq)
  have nodup: "array_get arr p = Inr x \<Longrightarrow> pin_name (?mem x) \<noteq> name" for x
  proof
    assume g: "array_get arr p = Inr x" and e: "pin_name (?mem x) = name"
    have x: "x \<in> set arr" using g by (auto simp: array_get_def split: if_splits)
    then have "pin_name (pin_store st x) = name" using e fresh by auto
    then have "name \<in> set (index_names (pin_store st) arr)"
      using x by (auto simp: index_names_def)
    then show False using new by (simp add: arr_def)
  qed
  have "add_pin name left right type st
          = Inr (?pin, st\<lparr> next_pin := ?pin + 1, pin_store := ?mem,
                           pin_list := Some (take (nat p) arr @ ?pin # drop (nat p) arr) \<rparr>)"
    using fp ins nodup
    by (auto simp: add_pin_def Let_def new_pin_def_def pl strcmp_simps split: sum.splits)
  then show ?thesis using ip' unfolding arr_def by blast
qed

lemma pin_array_updates [simp]:
  "pin_array (st\<lparr>next_pin := n\<rparr>) = pin_array st"
  "pin_array (st\<lparr>pin_store := m\<rparr>) = pin_array st"
  "pin_array (st\<lparr>console := c\<rparr>) = pin_array st"
  "pin_array (st\<lparr>assignment_list := al\<rparr>) = pin_array st"
  "pin_array (st\<lparr>pin_list := Some a\<rparr>) = a"
  by (simp_all add: pin_array_def)

lemma add_pin_step:
  assumes inv: "index_inv st"
  shows "\<exists>r st'. add_pin name left right type st = Inr (r, st')
           \<and> index_inv st'
           \<and> set (net_names st') = insert name (set (net_names st))
           \<and> r \<in> set (pin_array st') \<and> pin_name (pin_store st' r) = name
           \<and> (\<forall>q < next_pin st. pin_store st' q = pin_store st q)
           \<and> next_pin st \<le> next_pin st'
           \<and> set (pin_array st) \<subseteq> set (pin_array st')
           \<and> pin_list st' \<noteq> None
           \<and> (name \<notin> set (net_names st) \<longrightarrow> pin_store st' r = new_pin_def name left right type)"
proof (cases "name \<in> set (net_names st)")
  case True
  then obtain r where r: "r \<in> set (pin_array st)" "pin_name (pin_store st r) = name"
    by (auto simp: net_names_def index_names_def)
  let ?st' = "st\<lparr> next_pin := next_pin st + 1,
                  pin_store := (pin_store st)(next_pin st := new_pin_def name left right type),
                  console := console st @ [Duplicate_Net_Warning name (yylineno st)] \<rparr>"
  have ap: "add_pin name left right type st = Inr (r, ?st')"
    using add_pin_duplicate[OF inv r] .
  have fresh: "\<forall>r \<in> set (pin_array st). r < next_pin st" using inv by (simp add: index_inv_def)
  have arr: "pin_array ?st' = pin_array st" by (simp add: pin_array_def)
  have names: "net_names ?st' = net_names st"
    using index_names_fresh[OF fresh] by (simp add: net_names_def)
  have "index_inv ?st'"
    using inv names fresh unfolding index_inv_def net_names_def arr by auto
  moreover have "pin_name (pin_store ?st' r) = name" using r fresh by auto
  moreover have "pin_list ?st' \<noteq> None"
    using r(1) by (cases "pin_list st") (simp_all add: pin_array_def)
  ultimately show ?thesis using ap names True r arr by auto
next
  case False
  then have new: "name \<notin> set (index_names (pin_store st) (pin_array st))"
    by (simp add: net_names_def)
  let ?mem = "(pin_store st)(next_pin st := new_pin_def name left right type)"
  from add_pin_new[OF inv new, of left right type] obtain p where
    ip: "insertion_point (pin_store st) name (pin_array st) p"
    and ap: "add_pin name left right type st
               = Inr (next_pin st,
                      st\<lparr> next_pin := next_pin st + 1, pin_store := ?mem,
                          pin_list := Some (take (nat p) (pin_array st) @ next_pin st
                                              # drop (nat p) (pin_array st)) \<rparr>)"
    by blast
  let ?arr' = "take (nat p) (pin_array st) @ next_pin st # drop (nat p) (pin_array st)"
  let ?st' = "st\<lparr> next_pin := next_pin st + 1, pin_store := ?mem, pin_list := Some ?arr' \<rparr>"
  have fresh: "\<forall>r \<in> set (pin_array st). r < next_pin st" using inv by (simp add: index_inv_def)
  have arr: "pin_array ?st' = ?arr'" by (simp add: pin_array_def)
  have old: "index_names ?mem (pin_array st) = index_names (pin_store st) (pin_array st)"
    using fresh by (rule index_names_fresh)
  have names: "net_names ?st'
                 = take (nat p) (net_names st) @ name # drop (nat p) (net_names st)"
  proof -
    have "net_names ?st' = index_names ?mem ?arr'" by (simp add: net_names_def)
    also have "\<dots> = take (nat p) (index_names ?mem (pin_array st))
                      @ name # drop (nat p) (index_names ?mem (pin_array st))"
      by (simp add: index_names_def take_map drop_map new_pin_def_def)
    finally show ?thesis by (simp add: old net_names_def)
  qed
  have srt: "sorted_wrt (<) (net_names st)" using inv by (simp add: index_inv_def net_names_def)
  have "sorted_wrt (<) (net_names ?st')"
    unfolding names
  proof (rule sorted_wrt_insert_at[OF srt])
    fix x assume "x \<in> set (take (nat p) (net_names st))"
    then show "x < name" using insertion_point_take[OF ip] by (simp add: net_names_def)
  next
    fix x assume "x \<in> set (drop (nat p) (net_names st))"
    then show "name < x" using insertion_point_not_found[OF ip new] by (simp add: net_names_def)
  qed
  moreover have setarr: "set ?arr' = insert (next_pin st) (set (pin_array st))"
  proof -
    have "set ?arr' = insert (next_pin st) (set (take (nat p) (pin_array st) @ drop (nat p) (pin_array st)))"
      by (simp only: set_append set_simps) auto
    then show ?thesis by simp
  qed
  ultimately have inv': "index_inv ?st'"
    using fresh unfolding index_inv_def net_names_def arr by auto
  have setnames: "set (net_names ?st') = insert name (set (net_names st))"
  proof -
    have "set (net_names ?st')
            = insert name (set (take (nat p) (net_names st) @ drop (nat p) (net_names st)))"
      unfolding names by (simp only: set_append set_simps) auto
    then show ?thesis by simp
  qed
  have "\<forall>q < next_pin st. pin_store ?st' q = pin_store st q" by simp
  moreover have "pin_store ?st' (next_pin st) = new_pin_def name left right type" by simp
  moreover have "pin_name (new_pin_def name left right type) = name"
    by (simp add: new_pin_def_def)
  ultimately show ?thesis
    using ap inv' setnames setarr arr by (auto simp: pin_array_def)
qed

lemma first_declaration_iff:
  "first_declaration ds i \<longleftrightarrow> i < length ds \<and> (\<forall>j<i. fst (ds ! j) \<noteq> fst (ds ! i))"
proof (cases "i < length ds")
  case False
  then show ?thesis by (simp add: first_declaration_def)
next
  case True
  have "set (take i ds) = (!) ds ` {0..<i}"
    using True by (simp add: nth_image)
  then have img: "set (map fst (take i ds)) = (\<lambda>j. fst (ds ! j)) ` {0..<i}"
    by (simp add: image_image)
  have "fst (ds ! i) \<notin> (\<lambda>j. fst (ds ! j)) ` {0..<i}
          \<longleftrightarrow> (\<forall>j<i. fst (ds ! j) \<noteq> fst (ds ! i))"
  proof
    assume a: "fst (ds ! i) \<notin> (\<lambda>j. fst (ds ! j)) ` {0..<i}"
    show "\<forall>j<i. fst (ds ! j) \<noteq> fst (ds ! i)"
    proof (intro allI impI notI)
      fix j assume "j < i" and e: "fst (ds ! j) = fst (ds ! i)"
      then have "j \<in> {0..<i}" by simp
      then have "fst (ds ! j) \<in> (\<lambda>j. fst (ds ! j)) ` {0..<i}" by (rule imageI)
      then show False using a e by simp
    qed
  next
    assume b: "\<forall>j<i. fst (ds ! j) \<noteq> fst (ds ! i)"
    show "fst (ds ! i) \<notin> (\<lambda>j. fst (ds ! j)) ` {0..<i}"
    proof
      assume "fst (ds ! i) \<in> (\<lambda>j. fst (ds ! j)) ` {0..<i}"
      then obtain j where j: "j \<in> {0..<i}" and e: "fst (ds ! i) = fst (ds ! j)"
        by (rule imageE)
      from j have "j < i" by simp
      with b have "fst (ds ! j) \<noteq> fst (ds ! i)" by blast
      from this e[symmetric] show False by (rule notE)
    qed
  qed
  then show ?thesis using True img by (simp add: first_declaration_def)
qed

lemma declare_nets_run:
  assumes "index_inv st0"
  shows "\<exists>rs st. declare_nets ds st0 = Inr (rs, st)
           \<and> index_inv st
           \<and> set (net_names st) = set (net_names st0) \<union> fst ` set ds
           \<and> length rs = length ds
           \<and> (\<forall>i<length ds. rs ! i \<in> set (pin_array st)
                              \<and> pin_name (pin_store st (rs ! i)) = fst (ds ! i))
           \<and> (\<forall>q<next_pin st0. pin_store st q = pin_store st0 q)
           \<and> next_pin st0 \<le> next_pin st
           \<and> set (pin_array st0) \<subseteq> set (pin_array st)
           \<and> (ds \<noteq> [] \<longrightarrow> pin_list st \<noteq> None)
           \<and> (\<forall>i. first_declaration ds i \<and> fst (ds ! i) \<notin> set (net_names st0)
                    \<longrightarrow> pin_store st (rs ! i) = declared_pin (ds ! i))"
  using assms
proof (induction ds arbitrary: st0)
  case Nil
  then show ?case by (simp add: first_declaration_iff)
next
  case (Cons d ds)
  obtain name left right type where d: "d = (name, left, right, type)" by (cases d) auto
  from add_pin_step[OF Cons.prems, of name left right type] obtain r1 st1 where
    ap: "add_pin name left right type st0 = Inr (r1, st1)"
    and inv1: "index_inv st1"
    and names1: "set (net_names st1) = insert name (set (net_names st0))"
    and r1: "r1 \<in> set (pin_array st1)" "pin_name (pin_store st1 r1) = name"
    and mem1: "\<forall>q < next_pin st0. pin_store st1 q = pin_store st0 q"
    and next1: "next_pin st0 \<le> next_pin st1"
    and arr1: "set (pin_array st0) \<subseteq> set (pin_array st1)"
    and pl1: "pin_list st1 \<noteq> None"
    and new1: "name \<notin> set (net_names st0) \<longrightarrow> pin_store st1 r1 = new_pin_def name left right type"
    by blast
  from Cons.IH[OF inv1] obtain rs st where
    run: "declare_nets ds st1 = Inr (rs, st)"
    and inv: "index_inv st"
    and names: "set (net_names st) = set (net_names st1) \<union> fst ` set ds"
    and len: "length rs = length ds"
    and refs: "\<forall>i<length ds. rs ! i \<in> set (pin_array st)
                              \<and> pin_name (pin_store st (rs ! i)) = fst (ds ! i)"
    and mem: "\<forall>q<next_pin st1. pin_store st q = pin_store st1 q"
    and nxt: "next_pin st1 \<le> next_pin st"
    and arr: "set (pin_array st1) \<subseteq> set (pin_array st)"
    and pl: "ds \<noteq> [] \<longrightarrow> pin_list st \<noteq> None"
    and first: "\<forall>i. first_declaration ds i \<and> fst (ds ! i) \<notin> set (net_names st1)
                    \<longrightarrow> pin_store st (rs ! i) = declared_pin (ds ! i)"
    by blast
  have r1_lt: "r1 < next_pin st1" using inv1 r1(1) by (simp add: index_inv_def)
  have keep: "pin_store st r1 = pin_store st1 r1" using mem r1_lt by simp
  have run': "declare_nets (d # ds) st0 = Inr (r1 # rs, st)"
    using ap run by (simp add: d)
  have c_names: "set (net_names st) = set (net_names st0) \<union> fst ` set (d # ds)"
    using names names1 by (auto simp: d)
  have c_refs: "\<forall>i<length (d # ds). (r1 # rs) ! i \<in> set (pin_array st)
                  \<and> pin_name (pin_store st ((r1 # rs) ! i)) = fst ((d # ds) ! i)"
  proof (intro allI impI)
    fix i assume i: "i < length (d # ds)"
    show "(r1 # rs) ! i \<in> set (pin_array st)
            \<and> pin_name (pin_store st ((r1 # rs) ! i)) = fst ((d # ds) ! i)"
    proof (cases i)
      case 0
      then show ?thesis using r1 arr keep by (auto simp: d)
    next
      case (Suc k)
      then show ?thesis using refs i by simp
    qed
  qed
  have c_mem: "\<forall>q<next_pin st0. pin_store st q = pin_store st0 q"
    using mem mem1 next1 by auto
  have c_pl: "pin_list st \<noteq> None"
  proof (cases "ds = []")
    case True then show ?thesis using run pl1 by simp
  next
    case False then show ?thesis using pl by simp
  qed
  have c_first: "\<forall>i. first_declaration (d # ds) i \<and> fst ((d # ds) ! i) \<notin> set (net_names st0)
                    \<longrightarrow> pin_store st ((r1 # rs) ! i) = declared_pin ((d # ds) ! i)"
  proof (intro allI impI)
    fix i assume a: "first_declaration (d # ds) i \<and> fst ((d # ds) ! i) \<notin> set (net_names st0)"
    show "pin_store st ((r1 # rs) ! i) = declared_pin ((d # ds) ! i)"
    proof (cases i)
      case 0
      then show ?thesis using a new1 keep by (simp add: d declared_pin_def)
    next
      case (Suc k)
      have k: "k < length ds" using a Suc by (simp add: first_declaration_iff)
      have ne: "fst (ds ! k) \<noteq> name"
      proof -
        have "\<forall>j<Suc k. fst ((d # ds) ! j) \<noteq> fst (ds ! k)"
          using a Suc by (simp add: first_declaration_iff)
        then have "fst ((d # ds) ! 0) \<noteq> fst (ds ! k)" by blast
        then show ?thesis by (auto simp: d)
      qed
      have "first_declaration ds k"
        unfolding first_declaration_iff
      proof (intro conjI allI impI)
        show "k < length ds" by (rule k)
      next
        fix j assume j: "j < k"
        have "\<forall>j<Suc k. fst ((d # ds) ! j) \<noteq> fst (ds ! k)"
          using a Suc by (simp add: first_declaration_iff)
        then have "fst ((d # ds) ! Suc j) \<noteq> fst (ds ! k)" using j by blast
        then show "fst (ds ! j) \<noteq> fst (ds ! k)" by simp
      qed
      moreover have "fst (ds ! k) \<notin> set (net_names st1)"
        using a Suc ne names1 by simp
      ultimately show ?thesis using first Suc by simp
    qed
  qed
  show ?case
    using run' inv c_names len c_refs c_mem next1 nxt arr1 arr c_pl c_first
    by (intro exI[of _ "r1 # rs"] exI[of _ st] conjI) auto
qed

lemma locate_net_by_name_found:
  assumes inv: "index_inv st"
    and r: "r \<in> set (pin_array st)" "pin_name (pin_store st r) = name"
  shows "locate_net_by_name name st = Inr (Some r)"
proof -
  obtain arr where pl: "pin_list st = Some arr"
    using r(1) by (cases "pin_list st") (simp_all add: pin_array_def)
  have arr: "pin_array st = arr" using pl by (rule pin_array_Some)
  have srt: "sorted_wrt (<) (index_names (pin_store st) arr)"
    using inv arr by (simp add: index_inv_def)
  obtain p where fp: "find_position_for_net_in_array (pin_store st) name (Some arr) = Inr p"
    and ip: "insertion_point (pin_store st) name arr p"
    using find_position_correct[OF srt] by blast
  have ra: "r \<in> set arr" using r(1) arr by simp
  have found: "p < int (length arr)" "arr ! nat p = r"
    using insertion_point_found[OF srt ip ra r(2)] by simp_all
  have p0: "0 \<le> p" using ip by (simp add: insertion_point_def)
  have get: "array_get arr p = Inr r" using found p0 by (simp add: array_get_def)
  show ?thesis
    using fp get found(1) r(2) by (simp add: locate_net_by_name_def pl strcmp_simps)
qed

lemma locate_net_by_name_missing:
  assumes inv: "index_inv st"
    and pl: "pin_list st \<noteq> None"
    and new: "name \<notin> set (net_names st)"
  shows "locate_net_by_name name st = Inr None"
proof -
  obtain arr where pl: "pin_list st = Some arr" using pl by auto
  have arr: "pin_array st = arr" using pl by (rule pin_array_Some)
  have srt: "sorted_wrt (<) (index_names (pin_store st) arr)"
    using inv arr by (simp add: index_inv_def)
  obtain p where fp: "find_position_for_net_in_array (pin_store st) name (Some arr) = Inr p"
    and ip: "insertion_point (pin_store st) name arr p"
    using find_position_correct[OF srt] by blast
  have p0: "0 \<le> p" using ip by (simp add: insertion_point_def)
  have nodup: "pin_name (pin_store st (arr ! nat p)) \<noteq> name" if "p < int (length arr)"
  proof
    assume e: "pin_name (pin_store st (arr ! nat p)) = name"
    have "arr ! nat p \<in> set arr" using that p0 by simp
    then have "name \<in> set (index_names (pin_store st) arr)"
      using e by (auto simp: index_names_def)
    then show False using new arr by (simp add: net_names_def)
  qed
  show ?thesis
    using fp nodup p0
    by (simp add: locate_net_by_name_def pl strcmp_simps array_get_def)
qed

lemma index_inv_unique:
  assumes inv: "index_inv st"
    and "r \<in> set (pin_array st)" "r' \<in> set (pin_array st)"
    and "pin_name (pin_store st r) = pin_name (pin_store st r')"
  shows "r = r'"
proof -
  have "distinct (index_names (pin_store st) (pin_array st))"
    using inv by (simp add: index_inv_def strict_sorted_iff[symmetric] sorted_wrt_iff_nth_less distinct_conv_nth)
       (metis nat_neq_iff order_less_irrefl)
  then have "inj_on (\<lambda>r. pin_name (pin_store st r)) (set (pin_array st))"
    by (simp add: index_names_def distinct_map)
  then show ?thesis using assms(2-4) by (auto dest: inj_onD)
qed

lemma index_inv_fresh: "pin_list st = None \<Longrightarrow> index_inv st"
  by (simp add: index_inv_def pin_array_def index_names_def)

subsection \<open>The ordered net index\<close>

lemmas eval_defs =
  add_pin_def find_position_for_net_in_array_def binary_search_loop.simps array_get_def
  insert_element_at_index_def append_array_element_def strcmp_def Let_def
  vqm_initial_def locate_net_by_name_def pin_array_def net_names_def index_names_def
  new_pin_def_def blank_memory_def

text \<open>
  Claim C6, as the specification words it, fails for the empty sequence of declarations:
  before the first \<^verbatim>\<open>add_pin\<close> the index is NULL, and the lookup stops at
  \<^verbatim>\<open>assert(pin_list != NULL)\<close> instead of answering that the net is not found.
\<close>

theorem lookup_before_first_declaration_counterexample:
  "declare_nets [] (vqm_initial blank_memory 1) = Inr ([], vqm_initial blank_memory 1)
   \<and> locate_net_by_name ''a'' (vqm_initial blank_memory 1) = Inl Assert_Failed"
  by (simp add: locate_net_by_name_def vqm_initial_def)

text \<open>
  Claim C6, amended. Starting where the index is NULL (a fresh process, or right after a
  module is finished), every sequence of at least one \<^verbatim>\<open>add_pin\<close> call completes and
  leaves the names of the index strictly ascending in the lexicographic order of their
  bytes; the index holds the declared names and no others; and
  \<^verbatim>\<open>locate_net_by_name\<close> returns the net of the index with the queried name, which is
  the only one, or NULL when the index has no net of that name. Since the sequence is
  arbitrary, this holds after each of its calls.
\<close>

theorem ordered_net_index:
  assumes "pin_list st0 = None" and "ds \<noteq> []"
  shows "\<exists>rs st. declare_nets ds st0 = Inr (rs, st)
           \<and> sorted_wrt (<) (net_names st)
           \<and> set (net_names st) = fst ` set ds
           \<and> (\<forall>name.
                 if name \<in> set (net_names st)
                 then (\<exists>r. locate_net_by_name name st = Inr (Some r)
                           \<and> r \<in> set (pin_array st)
                           \<and> pin_name (pin_store st r) = name
                           \<and> (\<forall>r' \<in> set (pin_array st).
                                 pin_name (pin_store st r') = name \<longrightarrow> r' = r))
                 else locate_net_by_name name st = Inr None)"
proof -
  have inv0: "index_inv st0" using assms(1) by (rule index_inv_fresh)
  have names0: "net_names st0 = []"
    using assms(1) by (simp add: net_names_def pin_array_def index_names_def)
  from declare_nets_run[OF inv0, of ds] obtain rs st where
    run: "declare_nets ds st0 = Inr (rs, st)"
    and inv: "index_inv st"
    and names: "set (net_names st) = set (net_names st0) \<union> fst ` set ds"
    and pl: "ds \<noteq> [] \<longrightarrow> pin_list st \<noteq> None"
    by blast
  have srt: "sorted_wrt (<) (net_names st)"
    using inv by (simp add: index_inv_def net_names_def)
  have look: "if name \<in> set (net_names st)
              then (\<exists>r. locate_net_by_name name st = Inr (Some r)
                        \<and> r \<in> set (pin_array st)
                        \<and> pin_name (pin_store st r) = name
                        \<and> (\<forall>r' \<in> set (pin_array st).
                              pin_name (pin_store st r') = name \<longrightarrow> r' = r))
              else locate_net_by_name name st = Inr None" for name
  proof (cases "name \<in> set (net_names st)")
    case True
    then obtain r where r: "r \<in> set (pin_array st)" "pin_name (pin_store st r) = name"
      by (auto simp: net_names_def index_names_def)
    have "locate_net_by_name name st = Inr (Some r)"
      using inv r by (rule locate_net_by_name_found)
    moreover have "\<forall>r' \<in> set (pin_array st). pin_name (pin_store st r') = name \<longrightarrow> r' = r"
      using index_inv_unique[OF inv _ r(1)] r(2) by auto
    ultimately have "\<exists>r. locate_net_by_name name st = Inr (Some r)
                        \<and> r \<in> set (pin_array st)
                        \<and> pin_name (pin_store st r) = name
                        \<and> (\<forall>r' \<in> set (pin_array st).
                              pin_name (pin_store st r') = name \<longrightarrow> r' = r)"
      using r by blast
    then show ?thesis using True by (simp only: if_True)
  next
    case False
    have "pin_list st \<noteq> None" using pl assms(2) by simp
    then have "locate_net_by_name name st = Inr None"
      using inv False by (intro locate_net_by_name_missing)
    then show ?thesis using False by (simp only: if_False)
  qed
  have names': "set (net_names st) = fst ` set ds" using names names0 by simp
  show ?thesis
  proof (intro exI conjI allI)
    show "declare_nets ds st0 = Inr (rs, st)" by (rule run)
    show "sorted_wrt (<) (net_names st)" by (rule srt)
    show "set (net_names st) = fst ` set ds" by (rule names')
    show "if name \<in> set (net_names st)
          then (\<exists>r. locate_net_by_name name st = Inr (Some r)
                    \<and> r \<in> set (pin_array st)
                    \<and> pin_name (pin_store st r) = name
                    \<and> (\<forall>r' \<in> set (pin_array st).
                          pin_name (pin_store st r') = name \<longrightarrow> r' = r))
          else locate_net_by_name name st = Inr None" for name
      by (rule look)
  qed
qed

text \<open>
  Claim C7. After any sequence of declarations, declaring once more a name whose first
  declaration was the \<open>i\<close>-th of the sequence completes (it is not fatal), returns the
  very reference that first declaration returned, leaves the index as it was (the state
  changes only in the allocator, in the cell of the dropped pin, and in the output),
  and writes the duplicate-net warning with the name and the current line; the net
  referred to still has the bounds and kind of its first declaration.
\<close>

theorem duplicate_declaration:
  assumes "pin_list st0 = None"
    and "declare_nets ds st0 = Inr (rs, st)"
    and "first_declaration ds i"
    and "fst (ds ! i) = name"
  shows "add_pin name left right type st
           = Inr (rs ! i,
                  st\<lparr> next_pin := next_pin st + 1,
                      pin_store := (pin_store st)
                        (next_pin st := new_pin_def name left right type),
                      console := console st @ [Duplicate_Net_Warning name (yylineno st)] \<rparr>)
         \<and> rs ! i \<in> set (pin_array st)
         \<and> rs ! i \<noteq> next_pin st
         \<and> pin_store st (rs ! i) = declared_pin (ds ! i)"
proof -
  have inv0: "index_inv st0" using assms(1) by (rule index_inv_fresh)
  have names0: "net_names st0 = []"
    using assms(1) by (simp add: net_names_def pin_array_def index_names_def)
  from declare_nets_run[OF inv0, of ds] obtain rs' st' where
    run: "declare_nets ds st0 = Inr (rs', st')"
    and inv': "index_inv st'"
    and refs': "\<forall>i<length ds. rs' ! i \<in> set (pin_array st')
                              \<and> pin_name (pin_store st' (rs' ! i)) = fst (ds ! i)"
    and first': "\<forall>i. first_declaration ds i \<and> fst (ds ! i) \<notin> set (net_names st0)
                    \<longrightarrow> pin_store st' (rs' ! i) = declared_pin (ds ! i)"
    by blast
  have same: "rs' = rs" "st' = st" using run assms(2) by simp_all
  note inv = inv'[unfolded same] and refs = refs'[unfolded same] and first = first'[unfolded same]
  have i: "i < length ds" using assms(3) by (simp add: first_declaration_iff)
  have r: "rs ! i \<in> set (pin_array st)" "pin_name (pin_store st (rs ! i)) = name"
    using refs i assms(4) by auto
  have lt: "rs ! i < next_pin st" using inv r(1) by (simp add: index_inv_def)
  have keep: "pin_store st (rs ! i) = declared_pin (ds ! i)"
    using first assms(3) names0 by simp
  show ?thesis
  proof (intro conjI)
    show "add_pin name left right type st
            = Inr (rs ! i,
                   st\<lparr> next_pin := next_pin st + 1,
                       pin_store := (pin_store st)
                         (next_pin st := new_pin_def name left right type),
                       console := console st @ [Duplicate_Net_Warning name (yylineno st)] \<rparr>)"
      using inv r by (rule add_pin_duplicate)
    show "rs ! i \<in> set (pin_array st)" by (rule r(1))
    show "rs ! i \<noteq> next_pin st" using lt by simp
    show "pin_store st (rs ! i) = declared_pin (ds ! i)" by (rule keep)
  qed
qed

theorem ordered_net_index_witness:
  "pin_list (vqm_initial blank_memory 1) = None
   \<and> [(''b'', 0, 0, PIN_WIRE), (''a'', 3, 0, PIN_WIRE), (''c'', 1, 0, PIN_INPUT)] \<noteq> []
   \<and> (\<exists>rs st. declare_nets [(''b'', 0, 0, PIN_WIRE), (''a'', 3, 0, PIN_WIRE),
                              (''c'', 1, 0, PIN_INPUT)] (vqm_initial blank_memory 1)
                  = Inr (rs, st)
         \<and> sorted_wrt (<) (net_names st)
         \<and> set (net_names st) = {''a'', ''b'', ''c''}
         \<and> net_names st = [''a'', ''b'', ''c'']
         \<and> pin_array st = [1, 0, 2]
         \<and> locate_net_by_name ''b'' st = Inr (Some 0)
         \<and> locate_net_by_name ''bb'' st = Inr None)"
proof -
  let ?ds = "[(''b'', 0, 0, PIN_WIRE), (''a'', 3, 0, PIN_WIRE), (''c'', 1, 0, PIN_INPUT)]
               :: net_declaration list"
  have h1: "pin_list (vqm_initial blank_memory 1) = None" by (simp add: vqm_initial_def)
  have h2: "?ds \<noteq> []" by simp
  from ordered_net_index[OF h1 h2] obtain rs st where
    run: "declare_nets ?ds (vqm_initial blank_memory 1) = Inr (rs, st)"
    and srt: "sorted_wrt (<) (net_names st)"
    and names: "set (net_names st) = fst ` set ?ds"
    by blast
  have "\<exists>st'. declare_nets ?ds (vqm_initial blank_memory 1) = Inr ([0, 1, 2], st')
              \<and> net_names st' = [''a'', ''b'', ''c'']
              \<and> pin_array st' = [1, 0, 2]
              \<and> locate_net_by_name ''b'' st' = Inr (Some 0)
              \<and> locate_net_by_name ''bb'' st' = Inr None"
    by (simp add: eval_defs)
  then obtain st' where
    run': "declare_nets ?ds (vqm_initial blank_memory 1) = Inr ([0, 1, 2], st')"
    and ev: "net_names st' = [''a'', ''b'', ''c'']" "pin_array st' = [1, 0, 2]"
            "locate_net_by_name ''b'' st' = Inr (Some 0)"
            "locate_net_by_name ''bb'' st' = Inr None"
    by blast
  have same: "st' = st" using run run' by simp
  have names': "set (net_names st) = {''a'', ''b'', ''c''}" using names by auto
  show ?thesis
    using h1 h2 run srt names' ev[unfolded same] by blast
qed

theorem duplicate_declaration_witness:
  "pin_list (vqm_initial blank_memory 7) = None
   \<and> (\<exists>st. declare_nets [(''b'', 0, 0, PIN_WIRE), (''a'', 3, 0, PIN_WIRE)]
                (vqm_initial blank_memory 7) = Inr ([0, 1], st)
            \<and> first_declaration [(''b'', 0, 0, PIN_WIRE), (''a'', 3, 0, PIN_WIRE)] 1
            \<and> fst ([(''b'', 0, 0, PIN_WIRE), (''a'', 3, 0, PIN_WIRE)] ! 1 :: net_declaration)
                  = ''a''
            \<and> pin_array st = [1, 0] \<and> next_pin st = 2 \<and> console st = [] \<and> yylineno st = 7
            \<and> (\<exists>st'. add_pin ''a'' 9 2 PIN_INPUT st = Inr (1, st')
                      \<and> pin_array st' = [1, 0]
                      \<and> console st' = [Duplicate_Net_Warning ''a'' 7]
                      \<and> pin_store st' 1 = declared_pin (''a'', 3, 0, PIN_WIRE)))"
proof -
  let ?ds = "[(''b'', 0, 0, PIN_WIRE), (''a'', 3, 0, PIN_WIRE)] :: net_declaration list"
  have h1: "pin_list (vqm_initial blank_memory 7) = None" by (simp add: vqm_initial_def)
  have "\<exists>st. declare_nets ?ds (vqm_initial blank_memory 7) = Inr ([0, 1], st)
            \<and> pin_array st = [1, 0] \<and> next_pin st = 2 \<and> console st = [] \<and> yylineno st = 7"
    by (simp add: eval_defs)
  then obtain st where
    h2: "declare_nets ?ds (vqm_initial blank_memory 7) = Inr ([0, 1], st)"
    and ev: "pin_array st = [1, 0]" "next_pin st = 2" "console st = []" "yylineno st = 7"
    by blast
  have h3: "first_declaration ?ds 1" by (simp add: first_declaration_iff)
  have h4: "fst (?ds ! 1) = ''a''" by simp
  define st2 where
    "st2 = st\<lparr> next_pin := next_pin st + 1,
               pin_store := (pin_store st)(next_pin st := new_pin_def ''a'' 9 2 PIN_INPUT),
               console := console st @ [Duplicate_Net_Warning ''a'' (yylineno st)] \<rparr>"
  note dup = duplicate_declaration[OF h1 h2 h3 h4, of 9 2 PIN_INPUT]
  have ap: "add_pin ''a'' 9 2 PIN_INPUT st = Inr ([0, 1] ! 1, st2)"
    using dup unfolding st2_def by (rule conjunct1)
  have keep: "pin_store st ([0, 1] ! 1) = declared_pin (?ds ! 1)"
    using dup by (rule conjunct2[OF conjunct2[OF conjunct2]])
  have c1: "add_pin ''a'' 9 2 PIN_INPUT st = Inr (1, st2)" using ap by simp
  have c2: "pin_array st2 = [1, 0]" using ev by (simp add: st2_def)
  have c3: "console st2 = [Duplicate_Net_Warning ''a'' 7]" using ev by (simp add: st2_def)
  have c4: "pin_store st2 1 = declared_pin (''a'', 3, 0, PIN_WIRE)"
    using keep ev by (simp add: st2_def)
  have inner: "\<exists>st'. add_pin ''a'' 9 2 PIN_INPUT st = Inr (1, st')
                      \<and> pin_array st' = [1, 0]
                      \<and> console st' = [Duplicate_Net_Warning ''a'' 7]
                      \<and> pin_store st' 1 = declared_pin (''a'', 3, 0, PIN_WIRE)"
    by (intro exI[of _ st2] conjI) (fact c1 c2 c3 c4)+
  show ?thesis
    by (rule conjI[OF h1], rule exI[of _ st], intro conjI) (fact h2 h3 h4 ev inner)+
qed

subsection \<open>Assignments\<close>

lemma bus_assignment_loop_eq:
  assumes "wire_index \<le> target_max + 1"
    and "fits_int (target_max + 1)"
    and "source \<noteq> None \<longrightarrow>
           INT_MIN \<le> source_index + 1
           \<and> source_index + (target_max + 1 - wire_index) \<le> INT_MAX"
  shows "bus_assignment_loop wire_index target_max source source_index target tristated
           tri_control tri_control_index constant invert array
         = Inr (array @ map (expanded_assignment source source_index target wire_index tristated
                               tri_control tri_control_index constant invert)
                          [0..<nat (target_max + 1 - wire_index)])"
  using assms
proof (induction wire_index target_max source source_index target tristated tri_control
         tri_control_index "constant" invert array rule: bus_assignment_loop.induct)
  case (1 wire_index target_max source source_index target tristated tri_control
          tri_control_index cst invert array)
  note fit = "1.prems"(2)
  show ?case
  proof (cases "wire_index = target_max + 1")
    case True
    then show ?thesis using fit by (subst bus_assignment_loop.simps) simp
  next
    case False
    then have lt: "wire_index < target_max + 1" using "1.prems"(1) by simp
    have sfit: "\<not> (source \<noteq> None \<and> \<not> fits_int (source_index + 1))"
      using "1.prems"(3) lt by (auto simp: fits_int_def)
    have n: "nat (target_max + 1 - wire_index) = Suc (nat (target_max + 1 - (wire_index + 1)))"
      using lt by simp
    let ?f = "expanded_assignment source source_index target wire_index tristated
                tri_control tri_control_index cst invert"
    let ?g = "expanded_assignment source (if source \<noteq> None then source_index + 1 else source_index)
                target (wire_index + 1) tristated tri_control tri_control_index cst invert"
    have shift: "?f (Suc k) = ?g k" for k
      by (simp add: expanded_assignment_def)
    have first: "?f 0 = \<lparr> assign_source = source,
                  assign_source_index = (if source \<noteq> None then source_index else 0),
                  assign_target = target,
                  assign_target_index = wire_index,
                  assign_is_tristated = tristated,
                  assign_tri_control = tri_control,
                  assign_tri_control_index = tri_control_index,
                  assign_value = cst,
                  assign_inversion = invert \<rparr>"
      by (simp add: expanded_assignment_def)
    have next_fit: "source \<noteq> None \<longrightarrow>
                      INT_MIN \<le> (if source \<noteq> None then source_index + 1 else source_index) + 1
                      \<and> (if source \<noteq> None then source_index + 1 else source_index)
                          + (target_max + 1 - (wire_index + 1)) \<le> INT_MAX"
      using "1.prems"(3) by auto
    have ih: "bus_assignment_loop (wire_index + 1) target_max source
                (if source \<noteq> None then source_index + 1 else source_index)
                target tristated tri_control tri_control_index cst invert
                (append_array_element (?f 0) array)
              = Inr (append_array_element (?f 0) array
                     @ map ?g [0..<nat (target_max + 1 - (wire_index + 1))])"
      unfolding first using False lt fit sfit next_fit by (intro "1.IH") simp_all
    have "bus_assignment_loop wire_index target_max source source_index target tristated
            tri_control tri_control_index cst invert array
          = bus_assignment_loop (wire_index + 1) target_max source
                (if source \<noteq> None then source_index + 1 else source_index)
                target tristated tri_control tri_control_index cst invert
                (append_array_element (?f 0) array)"
      unfolding first using False lt fit sfit by (subst bus_assignment_loop.simps) auto
    also have "\<dots> = Inr (array @ ?f 0 # map ?g [0..<nat (target_max + 1 - (wire_index + 1))])"
      unfolding ih by (simp add: append_array_element_def)
    also have "?f 0 # map ?g [0..<nat (target_max + 1 - (wire_index + 1))]
                 = map ?f [0..<nat (target_max + 1 - wire_index)]"
      unfolding n map_upt_Suc by (simp add: shift)
    finally show ?thesis .
  qed
qed

lemma pin_min_max_le: "fst (pin_min_max p) \<le> snd (pin_min_max p)"
  by (simp add: pin_min_max_def)

lemma pin_min_max_scalar: "pin_left p = pin_right p \<Longrightarrow> pin_min_max p = (pin_left p, pin_left p)"
  by (simp add: pin_min_max_def)

lemma pin_min_max_width:
  "snd (pin_min_max p) - fst (pin_min_max p) > 0 \<longleftrightarrow> pin_left p \<noteq> pin_right p"
  by (auto simp: pin_min_max_def)

lemma t_boolean_not_false [simp]: "(b \<noteq> T_FALSE) = (b = T_TRUE)"
  by (cases b) simp_all

lemma t_boolean_not_true [simp]: "(b \<noteq> T_TRUE) = (b = T_FALSE)"
  by (cases b) simp_all

text \<open>On a net in range no computation on its bounds overflows.\<close>

lemma pin_in_range_fits:
  assumes "pin_in_range p"
  shows "fits_int (fst (pin_min_max p) - 1)"
    and "fits_int (snd (pin_min_max p) + 1)"
    and "fits_int (snd (pin_min_max p) - fst (pin_min_max p))"
    and "fits_int (pin_left p - pin_right p)"
  using assms
  by (auto simp: pin_in_range_def fits_int_def pin_min_max_def INT_MIN_def INT_MAX_def
        split: if_splits)

lemma window_assert_in_range:
  "pin_in_range p \<Longrightarrow>
   window_assert p index = (if index_in_window p index then None else Some Assert_Failed)"
  using pin_in_range_fits(1)[of p] by (simp add: window_assert_def index_in_window_def)

lemma source_window_scalar:
  "pin_left (memory s) = pin_right (memory s) \<Longrightarrow>
   index_in_window (memory s) (source_index_used memory (Some s) source_index)"
  by (simp add: index_in_window_def source_index_used_def pin_min_max_def)

lemma source_window_bus:
  "pin_left (memory s) \<noteq> pin_right (memory s) \<Longrightarrow>
   source_index_used memory (Some s) source_index = source_index"
  by (simp add: source_index_used_def)

lemma source_assert_in_range:
  assumes "case source of None \<Rightarrow> True | Some s \<Rightarrow> pin_in_range (memory s)"
  shows "source_assert memory source source_index
         = (if (case source of
                  None \<Rightarrow> True
                | Some s \<Rightarrow> pin_left (memory s) = pin_right (memory s)
                            \<or> index_in_window (memory s) source_index)
            then Inr (source_index_used memory source source_index)
            else Inl Assert_Failed)"
proof (cases source)
  case None
  then show ?thesis by (simp add: source_assert_def source_index_used_def)
next
  case (Some s)
  then have r: "pin_in_range (memory s)" using assms by simp
  show ?thesis
  proof (cases "pin_left (memory s) = pin_right (memory s)")
    case True
    then show ?thesis
      using source_window_scalar[of memory s source_index] pin_in_range_fits(4)[OF r]
      by (simp add: Some source_assert_def Let_def window_assert_in_range[OF r]
            source_index_used_def)
  next
    case False
    then show ?thesis
      using pin_in_range_fits(4)[OF r]
      by (simp add: Some source_assert_def Let_def window_assert_in_range[OF r]
            source_index_used_def)
  qed
qed

lemma add_assignment_rejected:
  assumes "\<not> passes_validation (pin_store st) source source_index target target_index
               tristated tri_control tri_control_index"
    and "nets_in_range (pin_store st) source target tristated tri_control"
  shows "add_assignment source source_index target target_index tristated tri_control
           tri_control_index cst invert st = Inl Assert_Failed"
proof (cases target)
  case None
  then show ?thesis by (simp add: add_assignment_def)
next
  case (Some t)
  have rs: "case source of None \<Rightarrow> True | Some s \<Rightarrow> pin_in_range (pin_store st s)"
    and rt: "pin_in_range (pin_store st t)"
    and rc: "tristated = T_FALSE
             \<or> (case tri_control of None \<Rightarrow> True | Some c \<Rightarrow> pin_in_range (pin_store st c))"
    using assms(2) by (simp_all add: nets_in_range_def Some)
  note sa = source_assert_in_range[OF rs, of source_index]
  note wa = window_assert_in_range[OF rt, of target_index]
  show ?thesis
  proof (cases "tristated = T_TRUE \<and> tri_control = None")
    case True
    then show ?thesis by (simp add: add_assignment_def Some)
  next
    case False
    show ?thesis
    proof (cases "case source of
                    None \<Rightarrow> True
                  | Some s \<Rightarrow> pin_left (pin_store st s) = pin_right (pin_store st s)
                              \<or> index_in_window (pin_store st s) source_index")
      case sf: False
      then show ?thesis using False by (simp add: add_assignment_def Some sa)
    next
      case sok: True
      show ?thesis
      proof (cases "index_in_window (pin_store st t) target_index")
        case wf: False
        then show ?thesis using False sok by (simp add: add_assignment_def Some sa wa)
      next
        case wok: True
        from assms(1) sok wok have tri: "tristated = T_TRUE"
          and ctl: "case tri_control of
                      None \<Rightarrow> True
                    | Some c \<Rightarrow> \<not> index_in_window (pin_store st c) tri_control_index"
          by (auto simp: passes_validation_def Some split: option.splits)
        from False tri obtain c where c: "tri_control = Some c" by (cases tri_control) auto
        have rc': "pin_in_range (pin_store st c)" using rc tri c by simp
        show ?thesis
          using sok wok tri ctl
          by (simp add: add_assignment_def Some sa wa c window_assert_in_range[OF rc'])
      qed
    qed
  qed
qed

lemma add_assignment_validated:
  assumes "passes_validation (pin_store st) source source_index (Some t) target_index
             tristated tri_control tri_control_index"
    and "nets_in_range (pin_store st) source (Some t) tristated tri_control"
  shows "add_assignment source source_index (Some t) target_index tristated tri_control
           tri_control_index cst invert st
         = (if single_assignment_path (pin_store st t) target_index
            then Inr (st\<lparr> assignment_list := Some (assignments st @
                       [single_assignment (pin_store st) source source_index t target_index
                          tristated tri_control tri_control_index cst invert]) \<rparr>)
            else if \<not> bus_width_ok (pin_store st) source (pin_store st t)
            then Inl Assert_Failed
            else Inr (st\<lparr> assignment_list := Some (assignments st @
                       map (expanded_assignment source
                              (case source of None \<Rightarrow> 0
                               | Some s \<Rightarrow> fst (pin_min_max (pin_store st s)))
                              (Some t) (fst (pin_min_max (pin_store st t)))
                              tristated tri_control tri_control_index cst invert)
                         [0..<nat (snd (pin_min_max (pin_store st t)) + 1
                                    - fst (pin_min_max (pin_store st t)))]) \<rparr>))"
proof -
  let ?t = "pin_store st t"
  have rs: "case source of None \<Rightarrow> True | Some s \<Rightarrow> pin_in_range (pin_store st s)"
    and rt: "pin_in_range ?t"
    and rc: "tristated = T_FALSE
             \<or> (case tri_control of None \<Rightarrow> True | Some c \<Rightarrow> pin_in_range (pin_store st c))"
    using assms(2) by (simp_all add: nets_in_range_def)
  have v1: "index_in_window ?t target_index"
    and v2: "case source of
               None \<Rightarrow> True
             | Some s \<Rightarrow> pin_left (pin_store st s) = pin_right (pin_store st s)
                         \<or> index_in_window (pin_store st s) source_index"
    and v3: "tristated = T_FALSE \<or> (case tri_control of None \<Rightarrow> False
               | Some c \<Rightarrow> index_in_window (pin_store st c) tri_control_index)"
    using assms(1) by (simp_all add: passes_validation_def)
  have a1: "\<not> \<not> (tri_control \<noteq> None \<or> tristated = T_FALSE)"
    using v3 by (cases tri_control) auto
  have sa: "source_assert (pin_store st) source source_index
              = Inr (source_index_used (pin_store st) source source_index)"
    using v2 by (simp add: source_assert_in_range[OF rs])
  have wa: "window_assert ?t target_index = None"
    using v1 by (simp add: window_assert_in_range[OF rt])
  have ta: "(if tristated = T_TRUE
             then (case tri_control of
                     None \<Rightarrow> Some Null_Dereference
                   | Some tc \<Rightarrow> window_assert (pin_store st tc) tri_control_index)
             else None) = None"
  proof (cases tristated)
    case T_FALSE
    then show ?thesis by simp
  next
    case T_TRUE
    then obtain c where c: "tri_control = Some c"
      and w: "index_in_window (pin_store st c) tri_control_index"
      using v3 by (cases tri_control) auto
    have "pin_in_range (pin_store st c)" using rc T_TRUE c by simp
    then show ?thesis using w by (simp add: c window_assert_in_range)
  qed
  have f1: "\<not> \<not> fits_int (pin_left ?t - pin_right ?t)"
    and f2: "\<not> \<not> fits_int (snd (pin_min_max ?t) - fst (pin_min_max ?t))"
    using pin_in_range_fits[OF rt] by simp_all
  have path: "((snd (pin_min_max ?t) - fst (pin_min_max ?t) > 0
                \<and> (if pin_left ?t - pin_right ?t = 0 then pin_left ?t - 1 else target_index)
                    > fst (pin_min_max ?t) - 1)
               \<or> pin_indexed ?t = T_FALSE)
              = single_assignment_path ?t target_index"
    by (auto simp: single_assignment_path_def pin_min_max_def)
  have width: "(case source of
                  None \<Rightarrow> Inr 0
                | Some s \<Rightarrow>
                    if \<not> fits_int (snd (pin_min_max (pin_store st s))
                                     - fst (pin_min_max (pin_store st s)))
                    then Inl Signed_Overflow
                    else if \<not> (snd (pin_min_max ?t) - fst (pin_min_max ?t)
                                 \<le> snd (pin_min_max (pin_store st s))
                                     - fst (pin_min_max (pin_store st s)))
                    then Inl Assert_Failed
                    else Inr (fst (pin_min_max (pin_store st s))))
               = (if bus_width_ok (pin_store st) source ?t
                  then Inr (case source of None \<Rightarrow> 0
                            | Some s \<Rightarrow> fst (pin_min_max (pin_store st s)))
                  else Inl Assert_Failed)"
  proof (cases source)
    case None
    then show ?thesis by (simp add: bus_width_ok_def)
  next
    case (Some s)
    then have "pin_in_range (pin_store st s)" using rs by simp
    from pin_in_range_fits(3)[OF this] show ?thesis by (simp add: Some bus_width_ok_def)
  qed
  have loop: "bus_assignment_loop (fst (pin_min_max ?t)) (snd (pin_min_max ?t)) source
                (case source of None \<Rightarrow> 0 | Some s \<Rightarrow> fst (pin_min_max (pin_store st s)))
                (Some t) tristated tri_control tri_control_index cst invert (assignments st)
              = Inr (assignments st @
                       map (expanded_assignment source
                              (case source of None \<Rightarrow> 0
                               | Some s \<Rightarrow> fst (pin_min_max (pin_store st s)))
                              (Some t) (fst (pin_min_max ?t))
                              tristated tri_control tri_control_index cst invert)
                         [0..<nat (snd (pin_min_max ?t) + 1 - fst (pin_min_max ?t))])"
    if w: "bus_width_ok (pin_store st) source ?t"
  proof (rule bus_assignment_loop_eq)
    show "fst (pin_min_max ?t) \<le> snd (pin_min_max ?t) + 1"
      using pin_min_max_le[of ?t] by simp
    show "fits_int (snd (pin_min_max ?t) + 1)"
      by (rule pin_in_range_fits(2)[OF rt])
    show "source \<noteq> None \<longrightarrow>
            INT_MIN \<le> (case source of None \<Rightarrow> 0
                        | Some s \<Rightarrow> fst (pin_min_max (pin_store st s))) + 1
            \<and> (case source of None \<Rightarrow> 0 | Some s \<Rightarrow> fst (pin_min_max (pin_store st s)))
                + (snd (pin_min_max ?t) + 1 - fst (pin_min_max ?t)) \<le> INT_MAX"
    proof (cases source)
      case None
      then show ?thesis by simp
    next
      case (Some s)
      then have "pin_in_range (pin_store st s)" using rs by simp
      then show ?thesis
        using w by (simp add: Some bus_width_ok_def pin_in_range_def)
    qed
  qed
  show ?thesis
  proof (cases "single_assignment_path ?t target_index")
    case True
    then show ?thesis
      unfolding add_assignment_def Let_def option.case if_not_P[OF a1] sa wa ta sum.case
        if_not_P[OF f1] if_not_P[OF f2] path assignments_def[symmetric]
      by (simp add: single_assignment_def append_array_element_def)
  next
    case False
    show ?thesis
    proof (cases "bus_width_ok (pin_store st) source ?t")
      case w: True
      show ?thesis
        unfolding add_assignment_def Let_def option.case if_not_P[OF a1] sa wa ta sum.case
          if_not_P[OF f1] if_not_P[OF f2] path assignments_def[symmetric] width
        using False w by (simp add: loop[OF w])
    next
      case w: False
      show ?thesis
        unfolding add_assignment_def Let_def option.case if_not_P[OF a1] sa wa ta sum.case
          if_not_P[OF f1] if_not_P[OF f2] path assignments_def[symmetric] width
        using False w by simp
    qed
  qed
qed

lemma abc_nets_declared:
  "declare_nets [(''a'', 3, 0, PIN_WIRE), (''b'', 2, 0, PIN_WIRE), (''c'', 0, 0, PIN_WIRE)]
     (vqm_initial blank_memory 1) = Inr ([0, 1, 2], abc_nets)"
  by (simp add: eval_defs abc_nets_def numeral_2_eq_2)

lemmas abc_pins =
  abc_nets_def vqm_initial_def new_pin_def_def pin_min_max_def index_in_window_def

lemmas add_assignment_eval =
  add_assignment_def source_assert_def window_assert_def fits_int_def INT_MIN_def INT_MAX_def
  append_array_element_def Let_def

lemmas port_binding_eval =
  create_wire_port_connections_def create_array_of_net_to_port_assignments_def
  associate_identifier_with_port_name_def create_node_port_association_def
  locate_net_by_name_def find_position_for_net_in_array_def binary_search_loop.simps
  array_get_def strcmp_def append_array_element_def my_abs_def my_min_def Let_def
  fits_int_def INT_MIN_def INT_MAX_def

text \<open>
  Claim C8, as the specification words it, fails: the scalar net \<open>c\<close> has the window
  \<open>[-1, 0]\<close>, the source index 99 lies outside it, and the call completes, because the
  index of a scalar source is replaced before it is checked.
\<close>

theorem unchecked_scalar_source_index_counterexample:
  "\<not> index_in_window (pin_store abc_nets 2) 99
   \<and> add_assignment (Some 2) 99 (Some 0) 3 T_FALSE None 0 (- 1) T_FALSE abc_nets
       = Inr (abc_nets\<lparr> assignment_list := Some
                [\<lparr> assign_source = Some 2, assign_source_index = - 1,
                   assign_target = Some 0, assign_target_index = 3,
                   assign_is_tristated = T_FALSE, assign_tri_control = None,
                   assign_tri_control_index = 0, assign_value = - 1,
                   assign_inversion = T_FALSE \<rparr>] \<rparr>)"
  by (simp add: add_assignment_eval abc_pins)

text \<open>
  Claim C8, amended. On nets in range, so that no \<^verbatim>\<open>int\<close> computation overflows,
  \<^verbatim>\<open>add_assignment\<close> completes exactly when the target is not NULL
  and the target index lies in the target's window; the source is NULL, or scalar
  (whatever index is supplied), or a bus with the source index in its window; the tristate
  flag is clear (the control and its index are then not looked at), or the control is not
  NULL and its index lies in its window; and the call either emits a single assignment or
  expands a target that is no wider than its source. In every other case an assertion
  fails.
\<close>

theorem add_assignment_contract:
  assumes "nets_in_range (pin_store st) source target tristated tri_control"
  shows
  "if passes_validation (pin_store st) source source_index target target_index tristated
        tri_control tri_control_index
      \<and> (case target of
            None \<Rightarrow> True
          | Some t \<Rightarrow> single_assignment_path (pin_store st t) target_index
                      \<or> bus_width_ok (pin_store st) source (pin_store st t))
   then \<exists>st'. add_assignment source source_index target target_index tristated tri_control
                 tri_control_index cst invert st = Inr st'
   else add_assignment source source_index target target_index tristated tri_control
          tri_control_index cst invert st = Inl Assert_Failed"
proof (cases "passes_validation (pin_store st) source source_index target target_index tristated
                tri_control tri_control_index")
  case False
  then show ?thesis using add_assignment_rejected[OF False assms] by simp
next
  case True
  then obtain t where t: "target = Some t"
    by (cases target) (simp_all add: passes_validation_def)
  show ?thesis
    using True add_assignment_validated[OF True[unfolded t] assms[unfolded t], of cst invert]
    by (simp add: t)
qed

theorem add_assignment_contract_witness:
  "nets_in_range (pin_store abc_nets) (Some 1) (Some 0) T_TRUE (Some 2)
   \<and> nets_in_range (pin_store abc_nets) (Some 1) (Some 0) T_FALSE None
   \<and> (\<exists>st'. add_assignment (Some 1) 2 (Some 0) 3 T_TRUE (Some 2) (- 1) (- 1) T_FALSE abc_nets
            = Inr st')
   \<and> add_assignment (Some 1) 3 (Some 0) 3 T_FALSE None 0 (- 1) T_FALSE abc_nets
       = Inl Assert_Failed
   \<and> add_assignment (Some 1) 2 (Some 0) 3 T_TRUE None 0 (- 1) T_FALSE abc_nets
       = Inl Assert_Failed
   \<and> add_assignment (Some 1) (- 1) (Some 0) (- 1) T_FALSE None 0 (- 1) T_FALSE abc_nets
       = Inl Assert_Failed"
proof -
  have r1: "nets_in_range (pin_store abc_nets) (Some 1) (Some 0) T_TRUE (Some 2)"
    and r2: "nets_in_range (pin_store abc_nets) (Some 1) (Some 0) T_FALSE None"
    and r3: "nets_in_range (pin_store abc_nets) (Some 1) (Some 0) T_TRUE None"
    by (simp_all add: nets_in_range_def pin_in_range_def INT_MIN_def INT_MAX_def abc_pins)
  show ?thesis
    using r1 r2
      add_assignment_contract[OF r1, of 2 3 "- 1" "- 1" T_FALSE]
      add_assignment_contract[OF r2, of 3 3 0 "- 1" T_FALSE]
      add_assignment_contract[OF r3, of 2 3 0 "- 1" T_FALSE]
      add_assignment_contract[OF r2, of "- 1" "- 1" 0 "- 1" T_FALSE]
    by (simp add: passes_validation_def single_assignment_path_def bus_width_ok_def abc_pins)
qed

text \<open>
  Claim C4, as the specification words it, fails: the target \<open>c\<close> is scalar, the supplied
  target index 5 lies outside its window, and the call ends in the failed range assertion
  without emitting an assignment.
\<close>

theorem scalar_target_bad_index_counterexample:
  "pin_left (pin_store abc_nets 2) = pin_right (pin_store abc_nets 2)
   \<and> add_assignment None 0 (Some 2) 5 T_FALSE None 0 1 T_FALSE abc_nets = Inl Assert_Failed"
  by (simp add: add_assignment_eval abc_pins)

text \<open>
  Claim C4, amended. For a call on nets in range (so that no \<^verbatim>\<open>int\<close> computation
  overflows) that passes the validation of \<^verbatim>\<open>add_assignment\<close> (target
  not NULL, every checked index inside its window, a control net when tristated):
  when the target net is scalar, or the supplied target index is not the whole-net value
  \<open>target_min - 1\<close>, exactly one assignment is appended, carrying the source, target,
  tristate, control, constant and invert of the call, and for a bus target the supplied
  target index; otherwise, when the target's \<^verbatim>\<open>indexed\<close> flag is set (as \<^verbatim>\<open>add_pin\<close>
  sets it for every bus), the call is fatal if a source is present and narrower than the
  target, and else appends one assignment per target bit, the \<open>k\<close>-th with target index
  \<open>target_min + k\<close>, with source index \<open>source_min + k\<close> when a source is present (0 when
  not), and with the call's other attributes; and when that flag is clear, one
  assignment for the whole net is appended.
\<close>

theorem assignment_count_and_expansion:
  assumes "passes_validation (pin_store st) source source_index (Some t) target_index
             tristated tri_control tri_control_index"
    and "nets_in_range (pin_store st) source (Some t) tristated tri_control"
  shows "if pin_left (pin_store st t) = pin_right (pin_store st t)
            \<or> target_index \<noteq> fst (pin_min_max (pin_store st t)) - 1
         then \<exists>a. add_assignment source source_index (Some t) target_index tristated tri_control
                      tri_control_index cst invert st
                    = Inr (st\<lparr> assignment_list := Some (assignments st @ [a]) \<rparr>)
                  \<and> assign_source a = source \<and> assign_target a = Some t
                  \<and> assign_is_tristated a = tristated \<and> assign_tri_control a = tri_control
                  \<and> assign_tri_control_index a = tri_control_index
                  \<and> assign_value a = cst \<and> assign_inversion a = invert
                  \<and> (pin_left (pin_store st t) = pin_right (pin_store st t)
                      \<or> assign_target_index a = target_index)
         else if pin_indexed (pin_store st t) = T_TRUE
         then (if bus_width_ok (pin_store st) source (pin_store st t)
               then add_assignment source source_index (Some t) target_index tristated
                      tri_control tri_control_index cst invert st
                    = Inr (st\<lparr> assignment_list := Some (assignments st @
                             map (expanded_assignment source
                                    (case source of None \<Rightarrow> 0
                                     | Some s \<Rightarrow> fst (pin_min_max (pin_store st s)))
                                    (Some t) (fst (pin_min_max (pin_store st t)))
                                    tristated tri_control tri_control_index cst invert)
                               [0..<nat (snd (pin_min_max (pin_store st t)) + 1
                                          - fst (pin_min_max (pin_store st t)))]) \<rparr>)
               else add_assignment source source_index (Some t) target_index tristated
                      tri_control tri_control_index cst invert st = Inl Assert_Failed)
         else \<exists>a. add_assignment source source_index (Some t) target_index tristated tri_control
                      tri_control_index cst invert st
                    = Inr (st\<lparr> assignment_list := Some (assignments st @ [a]) \<rparr>)
                  \<and> assign_target a = Some t
                  \<and> assign_target_index a = fst (pin_min_max (pin_store st t)) - 1"
proof -
  let ?t = "pin_store st t"
  note eq = add_assignment_validated[OF assms, of cst invert]
  have win: "index_in_window ?t target_index"
    using assms(1) by (simp add: passes_validation_def)
  consider (scalar_single) "pin_left ?t = pin_right ?t" "pin_indexed ?t = T_FALSE"
    | (scalar_loop) "pin_left ?t = pin_right ?t" "pin_indexed ?t = T_TRUE"
    | (bit) "pin_left ?t \<noteq> pin_right ?t" "target_index \<noteq> fst (pin_min_max ?t) - 1"
    | (whole_indexed) "pin_left ?t \<noteq> pin_right ?t" "target_index = fst (pin_min_max ?t) - 1"
        "pin_indexed ?t = T_TRUE"
    | (whole_plain) "pin_left ?t \<noteq> pin_right ?t" "target_index = fst (pin_min_max ?t) - 1"
        "pin_indexed ?t = T_FALSE"
    by (cases "pin_indexed ?t") auto
  note parts = this
  let ?call = "add_assignment source source_index (Some t) target_index tristated tri_control
                 tri_control_index cst invert st"
  let ?single = "single_assignment (pin_store st) source source_index t target_index
                   tristated tri_control tri_control_index cst invert"
  let ?expanded = "expanded_assignment source
                     (case source of None \<Rightarrow> 0 | Some s \<Rightarrow> fst (pin_min_max (pin_store st s)))
                     (Some t) (fst (pin_min_max ?t)) tristated tri_control tri_control_index
                     cst invert"
  have one_bit: "\<exists>a. ?call = Inr (st\<lparr> assignment_list := Some (assignments st @ [a]) \<rparr>)
                  \<and> assign_source a = source \<and> assign_target a = Some t
                  \<and> assign_is_tristated a = tristated \<and> assign_tri_control a = tri_control
                  \<and> assign_tri_control_index a = tri_control_index
                  \<and> assign_value a = cst \<and> assign_inversion a = invert
                  \<and> (pin_left ?t = pin_right ?t \<or> assign_target_index a = target_index)"
    if r: "?call = Inr (st\<lparr> assignment_list := Some (assignments st @ [b]) \<rparr>)"
      and b: "b = ?single \<or> (b = ?expanded 0 \<and> pin_left ?t = pin_right ?t)" for b
    using b by (intro exI[of _ b])
      (auto simp: r single_assignment_def expanded_assignment_def split: if_splits)
  from parts show ?thesis
  proof cases
    case scalar_single
    then have "single_assignment_path ?t target_index"
      by (simp add: single_assignment_path_def)
    then have "?call = Inr (st\<lparr> assignment_list := Some (assignments st @ [?single]) \<rparr>)"
      using eq by simp
    from one_bit[OF this] show ?thesis using scalar_single(1) by simp
  next
    case scalar_loop
    then have p: "\<not> single_assignment_path ?t target_index"
      by (simp add: single_assignment_path_def)
    have w: "bus_width_ok (pin_store st) source ?t"
      using scalar_loop(1) pin_min_max_le
      by (cases source) (simp_all add: bus_width_ok_def pin_min_max_scalar)
    have one: "[0..<nat (snd (pin_min_max ?t) + 1 - fst (pin_min_max ?t))] = [0]"
      using scalar_loop(1) by (simp add: pin_min_max_scalar)
    have "?call = Inr (st\<lparr> assignment_list := Some (assignments st @ [?expanded 0]) \<rparr>)"
      using eq p w by (simp add: one)
    from one_bit[OF this] show ?thesis using scalar_loop(1) by simp
  next
    case bit
    then have "single_assignment_path ?t target_index"
      using win by (simp add: single_assignment_path_def index_in_window_def)
    then have "?call = Inr (st\<lparr> assignment_list := Some (assignments st @ [?single]) \<rparr>)"
      using eq by simp
    from one_bit[OF this] show ?thesis using bit(2) by simp
  next
    case whole_indexed
    then have p: "\<not> single_assignment_path ?t target_index"
      by (simp add: single_assignment_path_def)
    show ?thesis using eq p whole_indexed by simp
  next
    case whole_plain
    then have p: "single_assignment_path ?t target_index"
      by (simp add: single_assignment_path_def)
    have r: "?call = Inr (st\<lparr> assignment_list := Some (assignments st @ [?single]) \<rparr>)"
      using eq p by simp
    have "\<exists>a. ?call = Inr (st\<lparr> assignment_list := Some (assignments st @ [a]) \<rparr>)
              \<and> assign_target a = Some t
              \<and> assign_target_index a = fst (pin_min_max ?t) - 1"
    proof (intro exI[of _ ?single] conjI)
      show "?call = Inr (st\<lparr> assignment_list := Some (assignments st @ [?single]) \<rparr>)"
        by (rule r)
      show "assign_target ?single = Some t" by (simp add: single_assignment_def)
      show "assign_target_index ?single = fst (pin_min_max ?t) - 1"
        using whole_plain by (simp add: single_assignment_def)
    qed
    then show ?thesis using whole_plain by simp
  qed
qed

theorem assignment_count_and_expansion_witness:
  "passes_validation (pin_store abc_nets) (Some 1) (- 1) (Some 1) (- 1) T_FALSE None 0
   \<and> nets_in_range (pin_store abc_nets) (Some 1) (Some 1) T_FALSE None
   \<and> add_assignment (Some 1) (- 1) (Some 1) (- 1) T_FALSE None 0 (- 1) T_TRUE abc_nets
       = Inr (abc_nets\<lparr> assignment_list := Some
                [\<lparr> assign_source = Some 1, assign_source_index = 0,
                   assign_target = Some 1, assign_target_index = 0,
                   assign_is_tristated = T_FALSE, assign_tri_control = None,
                   assign_tri_control_index = 0, assign_value = - 1,
                   assign_inversion = T_TRUE \<rparr>,
                 \<lparr> assign_source = Some 1, assign_source_index = 1,
                   assign_target = Some 1, assign_target_index = 1,
                   assign_is_tristated = T_FALSE, assign_tri_control = None,
                   assign_tri_control_index = 0, assign_value = - 1,
                   assign_inversion = T_TRUE \<rparr>,
                 \<lparr> assign_source = Some 1, assign_source_index = 2,
                   assign_target = Some 1, assign_target_index = 2,
                   assign_is_tristated = T_FALSE, assign_tri_control = None,
                   assign_tri_control_index = 0, assign_value = - 1,
                   assign_inversion = T_TRUE \<rparr>] \<rparr>)"
proof -
  have v: "passes_validation (pin_store abc_nets) (Some 1) (- 1) (Some 1) (- 1) T_FALSE None 0"
    by (simp add: passes_validation_def abc_pins)
  have r: "nets_in_range (pin_store abc_nets) (Some 1) (Some 1) T_FALSE None"
    by (simp add: nets_in_range_def pin_in_range_def INT_MIN_def INT_MAX_def abc_pins)
  have upt: "[0..<3] = [0, 1, 2]" by (simp add: upt_rec)
  show ?thesis
    using v r assignment_count_and_expansion[OF v r, of "- 1" T_TRUE]
    by (simp add: bus_width_ok_def expanded_assignment_def assignments_def upt abc_pins)
qed

lemma indexed_scalar_nets_declared:
  "(case create_pins_from_list
           [\<lparr> ident_name = ''t'', ident_indexed = T_FALSE, ident_index = 0 \<rparr>]
           0 0 PIN_WIRE T_TRUE (vqm_initial blank_memory 1) of
      Inl e \<Rightarrow> Inl e
    | Inr st \<Rightarrow> add_pin ''s'' 0 0 PIN_WIRE st)
   = Inr (1, indexed_scalar_nets)"
  by (simp add: eval_defs indexed_scalar_nets_def)

lemma assignments_update [simp]:
  "assignments (st\<lparr> assignment_list := Some a \<rparr>) = a"
  by (simp add: assignments_def)

text \<open>
  Claim C3. In a fresh process the three declarations give the state \<open>abc_nets\<close>, and
  the concatenation \<open>{b, c}\<close> assigned to \<open>a\<close> completes and leaves exactly the four
  assignments \<open>a[3] = b[2]\<close>, \<open>a[2] = b[1]\<close>, \<open>a[1] = b[0]\<close> and \<open>a[0] = c\<close>, in this
  order, each with the inversion flag of the call; the scalar \<open>c\<close> is recorded with its
  whole-net index \<open>- 1\<close>.
\<close>

theorem concatenation_example:
  "declare_nets [(''a'', 3, 0, PIN_WIRE), (''b'', 2, 0, PIN_WIRE), (''c'', 0, 0, PIN_WIRE)]
     (vqm_initial blank_memory 1) = Inr ([0, 1, 2], abc_nets)
   \<and> assignment_list abc_nets = None
   \<and> add_concatenation_assignments
       [Some \<lparr> ident_name = ''b'', ident_indexed = T_FALSE, ident_index = 0 \<rparr>,
        Some \<lparr> ident_name = ''c'', ident_indexed = T_FALSE, ident_index = 0 \<rparr>]
       (Some 0) invert_wire abc_nets
     = Inr (abc_nets\<lparr> assignment_list := Some
              [wire_to_wire 1 2 0 3 invert_wire,
               wire_to_wire 1 1 0 2 invert_wire,
               wire_to_wire 1 0 0 1 invert_wire,
               wire_to_wire 2 (- 1) 0 0 invert_wire] \<rparr>)"
proof (intro conjI)
  show "declare_nets [(''a'', 3, 0, PIN_WIRE), (''b'', 2, 0, PIN_WIRE), (''c'', 0, 0, PIN_WIRE)]
          (vqm_initial blank_memory 1) = Inr ([0, 1, 2], abc_nets)"
    by (rule abc_nets_declared)
  show "assignment_list abc_nets = None"
    by (simp add: abc_nets_def vqm_initial_def)
  show "add_concatenation_assignments
          [Some \<lparr> ident_name = ''b'', ident_indexed = T_FALSE, ident_index = 0 \<rparr>,
           Some \<lparr> ident_name = ''c'', ident_indexed = T_FALSE, ident_index = 0 \<rparr>]
          (Some 0) invert_wire abc_nets
        = Inr (abc_nets\<lparr> assignment_list := Some
                 [wire_to_wire 1 2 0 3 invert_wire,
                  wire_to_wire 1 1 0 2 invert_wire,
                  wire_to_wire 1 0 0 1 invert_wire,
                  wire_to_wire 2 (- 1) 0 0 invert_wire] \<rparr>)"
    by (simp add: add_concatenation_assignments_def concatenation_wire_loop.simps
          add_assignment_eval wire_to_wire_def
          locate_net_by_name_def find_position_for_net_in_array_def binary_search_loop.simps
          array_get_def strcmp_def abc_pins)
qed

text \<open>A NULL entry of the concatenation moves the target cursor and emits nothing.\<close>

lemma concatenation_stub_example:
  "add_concatenation_assignments
       [None, Some \<lparr> ident_name = ''c'', ident_indexed = T_FALSE, ident_index = 0 \<rparr>]
       (Some 0) invert_wire abc_nets
     = Inr (abc_nets\<lparr> assignment_list := Some [wire_to_wire 2 (- 1) 0 2 invert_wire] \<rparr>)"
  by (simp add: add_concatenation_assignments_def concatenation_wire_loop.simps
        add_assignment_eval wire_to_wire_def
        locate_net_by_name_def find_position_for_net_in_array_def binary_search_loop.simps
        array_get_def strcmp_def abc_pins)

lemmas indexed_scalar_pins =
  indexed_scalar_nets_def vqm_initial_def new_pin_def_def pin_min_max_def index_in_window_def

text \<open>
  Claim C10, as stated, fails where the target is a scalar net whose \<^verbatim>\<open>indexed\<close> flag is
  set (\<^verbatim>\<open>create_pins_from_list\<close> stores the caller's flag): the call takes the bus
  branch, whose own \<^verbatim>\<open>source_index\<close> starts at \<open>source_min\<close>, and the assignment it
  emits for the scalar source \<open>s\<close> records 0, not the whole-net value \<open>- 1\<close>.
\<close>

theorem scalar_source_in_bus_branch_counterexample:
  "pin_left (pin_store indexed_scalar_nets 1) = pin_right (pin_store indexed_scalar_nets 1)
   \<and> fst (pin_min_max (pin_store indexed_scalar_nets 1)) - 1 = - 1
   \<and> add_assignment (Some 1) 0 (Some 0) 0 T_FALSE None 0 (- 1) T_FALSE indexed_scalar_nets
       = Inr (indexed_scalar_nets\<lparr> assignment_list := Some
                [\<lparr> assign_source = Some 1, assign_source_index = 0,
                   assign_target = Some 0, assign_target_index = 0,
                   assign_is_tristated = T_FALSE, assign_tri_control = None,
                   assign_tri_control_index = 0, assign_value = - 1,
                   assign_inversion = T_FALSE \<rparr>] \<rparr>)"
  by (simp add: add_assignment_eval bus_assignment_loop.simps indexed_scalar_pins)

text \<open>
  Claim C10, amended. On nets in range, so that no \<^verbatim>\<open>int\<close> computation overflows:
  whenever \<^verbatim>\<open>add_assignment\<close> completes with a scalar source net,
  it has appended exactly one assignment, whatever source index the caller supplied:
  through the single-assignment branch that assignment records the whole-net value
  \<open>source_min - 1\<close> as its source index, and through the bus branch, which a scalar source
  survives only when the target is a scalar net with its \<^verbatim>\<open>indexed\<close> flag set, it
  records \<open>source_min\<close>. And whenever the call completes with a scalar target through the
  single-assignment branch, the one assignment appended records the target index
  \<open>left - 1\<close>, whatever target index was supplied.
\<close>

theorem scalar_net_indices:
  assumes "add_assignment source source_index (Some t) target_index tristated tri_control
             tri_control_index cst invert st = Inr st'"
    and "nets_in_range (pin_store st) source (Some t) tristated tri_control"
  shows "(case source of
            None \<Rightarrow> True
          | Some s \<Rightarrow>
              pin_left (pin_store st s) = pin_right (pin_store st s)
              \<longrightarrow> (\<exists>a. assignments st' = assignments st @ [a]
                      \<and> (if single_assignment_path (pin_store st t) target_index
                          then assign_source_index a = fst (pin_min_max (pin_store st s)) - 1
                          else assign_source_index a = fst (pin_min_max (pin_store st s))
                               \<and> pin_left (pin_store st t) = pin_right (pin_store st t)
                               \<and> pin_indexed (pin_store st t) = T_TRUE)))
         \<and> (pin_left (pin_store st t) = pin_right (pin_store st t)
               \<and> single_assignment_path (pin_store st t) target_index
             \<longrightarrow> (\<exists>a. assignments st' = assignments st @ [a]
                     \<and> assign_target_index a = pin_left (pin_store st t) - 1))"
proof -
  let ?t = "pin_store st t"
  have v: "passes_validation (pin_store st) source source_index (Some t) target_index
             tristated tri_control tri_control_index"
  proof (rule ccontr)
    assume "\<not> ?thesis"
    from add_assignment_rejected[OF this assms(2), of cst invert] show False
      using assms(1) by simp
  qed
  note eq = add_assignment_validated[OF v assms(2), of cst invert]
  note run = assms(1)
  let ?single = "single_assignment (pin_store st) source source_index t target_index
                   tristated tri_control tri_control_index cst invert"
  have single: "assignments st' = assignments st @ [?single]"
    if "single_assignment_path ?t target_index"
    using eq run that by auto
  have part2: "pin_left ?t = pin_right ?t \<and> single_assignment_path ?t target_index
               \<longrightarrow> (\<exists>a. assignments st' = assignments st @ [a]
                       \<and> assign_target_index a = pin_left ?t - 1)"
  proof (cases "pin_left ?t = pin_right ?t \<and> single_assignment_path ?t target_index")
    case True
    then have "assignments st' = assignments st @ [?single]
               \<and> assign_target_index ?single = pin_left ?t - 1"
      using single by (simp add: single_assignment_def)
    then show ?thesis by blast
  next
    case False
    then show ?thesis by blast
  qed
  have part1: "pin_left (pin_store st s) = pin_right (pin_store st s)
               \<longrightarrow> (\<exists>a. assignments st' = assignments st @ [a]
                      \<and> (if single_assignment_path ?t target_index
                          then assign_source_index a = fst (pin_min_max (pin_store st s)) - 1
                          else assign_source_index a = fst (pin_min_max (pin_store st s))
                               \<and> pin_left ?t = pin_right ?t
                               \<and> pin_indexed ?t = T_TRUE))"
    if s: "source = Some s" for s
  proof (cases "pin_left (pin_store st s) = pin_right (pin_store st s)")
    case False
    then show ?thesis by simp
  next
    case scalar: True
    show ?thesis
    proof (cases "single_assignment_path ?t target_index")
      case True
      have "assign_source_index ?single = fst (pin_min_max (pin_store st s)) - 1"
        using scalar by (simp add: single_assignment_def source_index_used_def s)
      then show ?thesis using single[OF True] True by auto
    next
      case False
      have w: "bus_width_ok (pin_store st) source ?t"
        using eq run False by (auto split: if_splits)
      then have tw: "snd (pin_min_max ?t) - fst (pin_min_max ?t) \<le> 0"
        using scalar by (simp add: bus_width_ok_def s pin_min_max_scalar)
      then have ts: "pin_left ?t = pin_right ?t"
        using pin_min_max_width[of ?t] by auto
      have ti: "pin_indexed ?t = T_TRUE"
        using False by (simp add: single_assignment_path_def)
      have one: "[0..<nat (snd (pin_min_max ?t) + 1 - fst (pin_min_max ?t))] = [0]"
        using ts by (simp add: pin_min_max_scalar)
      let ?e = "expanded_assignment source (fst (pin_min_max (pin_store st s)))
                  (Some t) (fst (pin_min_max ?t)) tristated tri_control tri_control_index
                  cst invert 0"
      have "assignments st' = assignments st @ [?e]"
        using eq run False w by (auto simp: one s)
      moreover have "assign_source_index ?e = fst (pin_min_max (pin_store st s))"
        by (simp add: expanded_assignment_def s)
      ultimately show ?thesis using False ts ti by auto
    qed
  qed
  show ?thesis
  proof (intro conjI)
    show "case source of
            None \<Rightarrow> True
          | Some s \<Rightarrow>
              pin_left (pin_store st s) = pin_right (pin_store st s)
              \<longrightarrow> (\<exists>a. assignments st' = assignments st @ [a]
                      \<and> (if single_assignment_path ?t target_index
                          then assign_source_index a = fst (pin_min_max (pin_store st s)) - 1
                          else assign_source_index a = fst (pin_min_max (pin_store st s))
                               \<and> pin_left ?t = pin_right ?t
                               \<and> pin_indexed ?t = T_TRUE))"
      using part1 by (cases source) simp_all
    show "pin_left ?t = pin_right ?t \<and> single_assignment_path ?t target_index
          \<longrightarrow> (\<exists>a. assignments st' = assignments st @ [a]
                  \<and> assign_target_index a = pin_left ?t - 1)"
      by (rule part2)
  qed
qed

theorem scalar_net_indices_witness:
  "add_assignment (Some 2) 99 (Some 2) 0 T_FALSE None 0 (- 1) T_FALSE abc_nets
     = Inr (abc_nets\<lparr> assignment_list := Some [wire_to_wire 2 (- 1) 2 (- 1) T_FALSE] \<rparr>)
   \<and> nets_in_range (pin_store abc_nets) (Some 2) (Some 2) T_FALSE None
   \<and> (\<exists>a. assignments (abc_nets\<lparr> assignment_list :=
                                    Some [wire_to_wire 2 (- 1) 2 (- 1) T_FALSE] \<rparr>)
             = assignments abc_nets @ [a]
           \<and> assign_source_index a = - 1)
   \<and> (\<exists>a. assignments (abc_nets\<lparr> assignment_list :=
                                    Some [wire_to_wire 2 (- 1) 2 (- 1) T_FALSE] \<rparr>)
             = assignments abc_nets @ [a]
           \<and> assign_target_index a = - 1)"
proof -
  have run: "add_assignment (Some 2) 99 (Some 2) 0 T_FALSE None 0 (- 1) T_FALSE abc_nets
               = Inr (abc_nets\<lparr> assignment_list := Some [wire_to_wire 2 (- 1) 2 (- 1) T_FALSE] \<rparr>)"
    by (simp add: add_assignment_eval wire_to_wire_def abc_pins)
  have r: "nets_in_range (pin_store abc_nets) (Some 2) (Some 2) T_FALSE None"
    by (simp add: nets_in_range_def pin_in_range_def INT_MIN_def INT_MAX_def abc_pins)
  have path: "single_assignment_path (pin_store abc_nets 2) 0"
    by (simp add: single_assignment_path_def abc_pins)
  have scalar: "pin_left (pin_store abc_nets 2) = pin_right (pin_store abc_nets 2)"
    by (simp add: abc_pins)
  have smin: "fst (pin_min_max (pin_store abc_nets 2)) - 1 = - 1"
             "pin_left (pin_store abc_nets 2) - 1 = - 1"
    by (simp_all add: abc_pins)
  show ?thesis
    using scalar_net_indices[OF run r] run r path scalar smin by simp
qed

subsection \<open>Binding a concatenation to a port\<close>

lemma occupied_Nil [simp]: "occupied [] = []"
  by (simp add: occupied_def)

lemma occupied_Cons:
  "occupied (e # xs) = (if e \<noteq> None then [0] else []) @ map Suc (occupied xs)"
proof -
  have "[0..<Suc (length xs)] = 0 # map Suc [0..<length xs]"
    by (simp only: map_Suc_upt upt_conv_Cons[OF zero_less_Suc])
  then show ?thesis
    by (simp add: occupied_def filter_map comp_def del: upt_Suc)
qed

lemma locate_net_by_name_name:
  "locate_net_by_name name st = Inr (Some pin) \<Longrightarrow> pin_name (pin_store st pin) = name"
  by (auto simp: locate_net_by_name_def strcmp_simps split: option.splits sum.splits if_splits)

text \<open>
  The inner loop of the flattening, when it completes, has appended one indexed
  identifier per wire from \<open>pin_index\<close> to \<open>right\<close>.
\<close>

lemma flatten_bus_loop_eq:
  assumes "flatten_bus_loop name left right pin_index acc = Inr fl"
  shows "fl = acc @ map (\<lambda>k. Some \<lparr> ident_name = name, ident_indexed = T_TRUE,
                                     ident_index = (if left > right then pin_index - int k
                                                    else pin_index + int k) \<rparr>)
                       [0..<nat (if left > right then pin_index - (right - 1)
                                 else right + 1 - pin_index)]"
  using assms
proof (induction name left right pin_index acc rule: flatten_bus_loop.induct)
  case (1 name left right pin_index acc)
  let ?d = "if left > right then - 1 else (1::int)"
  have fit: "fits_int (right + ?d)"
    using "1.prems" by (subst (asm) flatten_bus_loop.simps) (auto split: if_splits)
  show ?case
  proof (cases "pin_index = right + ?d")
    case True
    then have "fl = acc"
      using "1.prems" fit by (subst (asm) flatten_bus_loop.simps) (simp split: if_splits)
    then show ?thesis using True by (simp split: if_splits)
  next
    case False
    let ?new = "Some \<lparr> ident_name = name, ident_indexed = T_TRUE, ident_index = pin_index \<rparr>"
    have ok: "\<not> (if left > right then pin_index < right - 1 else pin_index > right + 1)"
      using "1.prems" False fit
      by (subst (asm) flatten_bus_loop.simps) (auto split: if_splits)
    have step: "flatten_bus_loop name left right (pin_index + ?d)
                  (append_array_element ?new acc) = Inr fl"
      using "1.prems" False fit ok
      by (subst (asm) flatten_bus_loop.simps) (simp split: if_splits)
    have ih: "fl = append_array_element ?new acc
                @ map (\<lambda>k. Some \<lparr> ident_name = name, ident_indexed = T_TRUE,
                                   ident_index = (if left > right then pin_index + ?d - int k
                                                  else pin_index + ?d + int k) \<rparr>)
                      [0..<nat (if left > right then pin_index + ?d - (right - 1)
                                else right + 1 - (pin_index + ?d))]"
      using fit False ok step by (intro "1.IH") simp_all
    show ?thesis
    proof (cases "left > right")
      case True
      then have n: "nat (pin_index - (right - 1)) = Suc (nat (pin_index - right))"
        using False ok by simp
      have "fl = acc @ map (\<lambda>k. Some \<lparr> ident_name = name, ident_indexed = T_TRUE,
                                        ident_index = pin_index - int k \<rparr>)
                          [0..<Suc (nat (pin_index - right))]"
        using ih True
        by (simp add: append_array_element_def map_upt_Suc algebra_simps del: upt_Suc)
      then show ?thesis using True by (simp only: n if_True)
    next
      case d: False
      then have n: "nat (right + 1 - pin_index) = Suc (nat (right - pin_index))"
        using False ok by simp
      have "fl = acc @ map (\<lambda>k. Some \<lparr> ident_name = name, ident_indexed = T_TRUE,
                                        ident_index = pin_index + int k \<rparr>)
                          [0..<Suc (nat (right - pin_index))]"
        using ih d
        by (simp add: append_array_element_def map_upt_Suc algebra_simps del: upt_Suc)
      then show ?thesis using d by (simp only: n if_False)
    qed
  qed
qed

text \<open>
  The flattening, when it completes, has appended to its result what each entry of the
  concatenation contributes, in order.
\<close>

lemma flattened_entry_None [simp]: "flattened_entry st None = [None]"
  by (simp add: flattened_entry_def)

lemma bound_entry_None [simp]: "bound_entry st port_name port_index None = []"
  by (simp add: bound_entry_def)

lemma flatten_loop_eq:
  assumes "flatten_loop con_array acc st = Inr fl"
  shows "fl = acc @ concat (map (flattened_entry st) con_array)"
  using assms
proof (induction con_array acc st rule: flatten_loop.induct)
  case (1 acc st)
  then show ?case by simp
next
  case (2 con_array acc st)
  have "fl = append_array_element None acc @ concat (map (flattened_entry st) con_array)"
    using 2 by (intro "2.IH") simp
  then show ?case by (simp add: append_array_element_def)
next
  case (3 source con_array acc st)
  note run = "3.prems"
  show ?case
  proof (cases "locate_net_by_name (ident_name source) st")
    case (Inl e)
    then show ?thesis using run by simp
  next
    case (Inr found)
    show ?thesis
    proof (cases found)
      case None
      have "flatten_loop con_array (append_array_element None acc) st = Inr fl"
        using run Inr None by simp
      then have "fl = append_array_element None acc
                   @ concat (map (flattened_entry st) con_array)"
        using Inr None by (intro "3.IH"(1)) simp_all
      moreover have "flattened_entry st (Some source) = [None]"
        using Inr None by (simp add: flattened_entry_def)
      ultimately show ?thesis by (simp add: append_array_element_def)
    next
      case (Some pin)
      let ?p = "pin_store st pin"
      have guard: "\<not> (\<not> fits_int (pin_left ?p - pin_right ?p)
                       \<or> \<not> fits_int (my_abs (pin_left ?p - pin_right ?p)))"
        using run Inr Some by (auto simp: Let_def split: if_splits)
      show ?thesis
      proof (cases "my_abs (pin_left ?p - pin_right ?p) > 0 \<and> ident_indexed source = T_FALSE")
        case True
        then obtain acc' where
          bus: "flatten_bus_loop (pin_name ?p) (pin_left ?p) (pin_right ?p) (pin_left ?p) acc
                  = Inr acc'"
          and rest: "flatten_loop con_array acc' st = Inr fl"
          using run Inr Some guard by (auto simp: Let_def split: sum.splits)
        have ne: "pin_left ?p \<noteq> pin_right ?p"
          using True by (auto simp: my_abs_def split: if_splits)
        have count: "nat (if pin_left ?p > pin_right ?p then pin_left ?p - (pin_right ?p - 1)
                          else pin_right ?p + 1 - pin_left ?p)
                       = Suc (nat (my_abs (pin_left ?p - pin_right ?p)))"
          using ne by (auto simp: my_abs_def)
        have entry: "flattened_entry st (Some source)
                       = map (\<lambda>k. Some \<lparr> ident_name = pin_name ?p, ident_indexed = T_TRUE,
                                         ident_index = (if pin_left ?p > pin_right ?p
                                                        then pin_left ?p - int k
                                                        else pin_left ?p + int k) \<rparr>)
                             [0..<Suc (nat (my_abs (pin_left ?p - pin_right ?p)))]"
          using Inr Some True ne
          by (simp add: flattened_entry_def bus_wires_def comp_def del: upt_Suc)
        have a: "acc' = acc @ flattened_entry st (Some source)"
          using flatten_bus_loop_eq[OF bus] unfolding count entry .
        have "fl = acc' @ concat (map (flattened_entry st) con_array)"
          using Inr Some True guard bus rest
          by (intro "3.IH"(2)[of found pin ?p acc']) simp_all
        then show ?thesis using a by simp
      next
        case False
        have keep: "flatten_loop con_array (append_array_element (Some source) acc) st = Inr fl"
          using run Inr Some guard False by (auto simp: Let_def)
        have entry: "flattened_entry st (Some source) = [Some source]"
          using Inr Some False
          by (auto simp: flattened_entry_def my_abs_def split: if_splits)
        have "fl = append_array_element (Some source) acc
                @ concat (map (flattened_entry st) con_array)"
          using Inr Some False guard keep
          by (intro "3.IH"(3)[of found pin ?p]) simp_all
        then show ?thesis using entry by (simp add: append_array_element_def)
      qed
    qed
  qed
qed

text \<open>Every entry of a flattened sequence is NULL or names one wire of a known net.\<close>

lemma flattened_entry_single_bit:
  "x \<in> set (flattened_entry st e) \<Longrightarrow> single_bit_entry st x"
proof (cases e)
  case None
  assume "x \<in> set (flattened_entry st e)"
  then show ?thesis using None by (simp add: flattened_entry_def single_bit_entry_def)
next
  case (Some source)
  assume x: "x \<in> set (flattened_entry st e)"
  show ?thesis
  proof (cases "locate_net_by_name (ident_name source) st")
    case (Inl err)
    then show ?thesis using x Some by (simp add: flattened_entry_def single_bit_entry_def)
  next
    case (Inr found)
    show ?thesis
    proof (cases found)
      case None
      then show ?thesis
        using x Some Inr by (simp add: flattened_entry_def single_bit_entry_def)
    next
      case pin: (Some pin)
      have nm: "pin_name (pin_store st pin) = ident_name source"
        using Inr pin by (intro locate_net_by_name_name) simp
      show ?thesis
        using x Some Inr pin nm
        by (auto simp: flattened_entry_def single_bit_entry_def split: if_splits)
    qed
  qed
qed

lemma flattened_entry_nonempty: "flattened_entry st e \<noteq> []"
  by (auto simp: flattened_entry_def bus_wires_def simp del: upt_Suc
        split: option.splits sum.splits)

lemma length_concat_nonempty:
  "(\<And>x. f x \<noteq> []) \<Longrightarrow> length xs \<le> length (concat (map f xs))"
proof (induction xs)
  case Nil
  then show ?case by simp
next
  case (Cons x xs)
  have "1 \<le> length (f x)" using Cons.prems[of x] by (cases "f x") simp_all
  then show ?case using Cons by fastforce
qed

lemma associate_single_bit:
  assumes "single_bit_entry st (Some ident)"
    and "associate_identifier_with_port_name ident port_name port_index st = Inr r"
  shows "r = Some (bound_entry st port_name port_index (Some ident))"
proof -
  from assms(1) obtain pin where
    loc: "locate_net_by_name (ident_name ident) st = Inr (Some pin)"
    and bit: "ident_indexed ident = T_TRUE
              \<or> pin_left (pin_store st pin) = pin_right (pin_store st pin)"
    by (auto simp: single_bit_entry_def split: sum.splits option.splits)
  show ?thesis
    using assms(2) bit
    by (auto simp: associate_identifier_with_port_name_def loc Let_def bound_entry_def
          create_node_port_association_def append_array_element_def
          split: if_splits sum.splits)
qed

text \<open>
  The binding loop appends, for every position of the flattened sequence, what the entry
  at that position contributes under the port bit index of the position.
\<close>

lemma wire_port_loop_bound:
  assumes "\<forall>e \<in> set rest. single_bit_entry st e"
    and "wire_port_loop rest array_size index port_name connections st = Inr result"
  shows "result = connections
           @ concat (map (\<lambda>k. bound_entry st port_name (array_size - (index + int k) - 1)
                                 (rest ! k))
                         [0..<length rest])"
  using assms
proof (induction rest array_size index port_name connections st
         rule: wire_port_loop.induct)
  case (1 array_size index port_name connections st)
  then show ?case by simp
next
  case (2 rest array_size index port_name connections st)
  have "result = connections
          @ concat (map (\<lambda>k. bound_entry st port_name (array_size - (index + 1 + int k) - 1)
                                (rest ! k))
                        [0..<length rest])"
    using "2.prems" by (intro "2.IH") simp_all
  then show ?case
    by (simp add: map_upt_Suc algebra_simps del: upt_Suc)
next
  case (3 ident rest array_size index port_name connections st)
  from "3.prems"(2) obtain r where
    as: "associate_identifier_with_port_name ident port_name (array_size - index - 1) st = Inr r"
    by (auto split: sum.splits)
  have "single_bit_entry st (Some ident)" using "3.prems"(1) by simp
  from associate_single_bit[OF this as]
  have r: "r = Some (bound_entry st port_name (array_size - index - 1) (Some ident))" .
  let ?b = "bound_entry st port_name (array_size - index - 1) (Some ident)"
  have rest: "wire_port_loop rest array_size (index + 1) port_name (connections @ ?b) st
                = Inr result"
    using "3.prems"(2) as r by simp
  have "result = (connections @ ?b)
          @ concat (map (\<lambda>k. bound_entry st port_name (array_size - (index + 1 + int k) - 1)
                                (rest ! k))
                        [0..<length rest])"
    using "3.prems"(1) as r rest by (intro "3.IH"(2)[of "Some ?b" ?b]) simp_all
  then show ?case
    by (simp add: map_upt_Suc algebra_simps del: upt_Suc)
qed

text \<open>The port bit indices and the port names of what an entry contributes.\<close>

lemma bound_entry_indices:
  assumes "\<forall>e \<in> set rest. single_bit_entry st e"
  shows "map assoc_port_index
           (concat (map (\<lambda>k. bound_entry st port_name (f k) (rest ! k)) [0..<length rest]))
         = map f (occupied rest)"
  using assms
proof (induction rest arbitrary: f)
  case Nil
  then show ?case by simp
next
  case (Cons e rest)
  have ih: "map assoc_port_index
              (concat (map (\<lambda>k. bound_entry st port_name (f (Suc k)) (rest ! k))
                           [0..<length rest]))
            = map (\<lambda>k. f (Suc k)) (occupied rest)"
    using Cons.prems by (intro Cons.IH[of "\<lambda>k. f (Suc k)"]) simp
  have head: "map assoc_port_index (bound_entry st port_name (f 0) e)
                = (if e \<noteq> None then [f 0] else [])"
    using Cons.prems
    by (auto simp: bound_entry_def single_bit_entry_def split: option.splits sum.splits)
  show ?case
    using ih head by (simp add: map_upt_Suc occupied_Cons comp_def del: upt_Suc)
qed

lemma bound_entry_names:
  "c \<in> set (bound_entry st port_name port_index e) \<Longrightarrow> assoc_port_name c = port_name"
  by (auto simp: bound_entry_def split: option.splits sum.splits)

text \<open>
  Claim C5, as stated, fails in its last clause: a stub stays in the flattened sequence as
  a NULL entry and is counted. For the concatenation of the scalar \<open>c\<close> and a stub the
  flattened sequence has two entries, and \<open>c\<close> is bound to port bit 1; with the stub
  excluded from the count it would be bound to port bit 0.
\<close>

theorem stub_is_counted_counterexample:
  "create_array_of_net_to_port_assignments
       [Some \<lparr> ident_name = ''c'', ident_indexed = T_FALSE, ident_index = 0 \<rparr>, None] abc_nets
     = Inr [Some \<lparr> ident_name = ''c'', ident_indexed = T_FALSE, ident_index = 0 \<rparr>, None]
   \<and> create_wire_port_connections
       [Some \<lparr> ident_name = ''c'', ident_indexed = T_FALSE, ident_index = 0 \<rparr>, None] ''p''
       abc_nets
     = Inr [\<lparr> assoc_port_name = ''p'', assoc_port_index = 1,
              assoc_associated_net = Some 2, assoc_wire_index = 0 \<rparr>]"
  by (simp add: port_binding_eval abc_pins)

text \<open>
  Claim C5, amended. Whenever \<^verbatim>\<open>create_wire_port_connections\<close> completes, the
  flattening has completed with the sequence of what the entries of the concatenation
  contribute in textual order: a stub, or a name of no known net, stays in it as one
  NULL entry, a bus named as a whole gives one indexed identifier per wire from its
  \<^verbatim>\<open>left\<close> toward its \<^verbatim>\<open>right\<close>, any other identifier stays as it is; so the sequence
  is at least as long as the concatenation. The connections returned are, in the order
  of the positions \<open>i\<close> of that sequence, nothing for a NULL entry and for an identifier
  the one association of the port's name and the port bit index \<open>total_count - 1 - i\<close>
  with the net that the identifier names, at the identifier's bit index (at the net's
  \<^verbatim>\<open>left\<close> for a scalar net named without index), where \<open>total_count\<close> is the length of
  the flattened sequence with its NULL entries counted. In particular the port bit
  indices are, in order, \<open>total_count - 1 - i\<close> for the positions \<open>i\<close> that hold an
  identifier, and every association carries the port's name.
\<close>

theorem port_binding:
  assumes "create_wire_port_connections concat_array port_name st = Inr connections"
  shows "\<exists>identifier_list.
           create_array_of_net_to_port_assignments concat_array st = Inr identifier_list
           \<and> identifier_list = concat (map (flattened_entry st) concat_array)
           \<and> length concat_array \<le> length identifier_list
           \<and> connections
               = concat (map (\<lambda>i. bound_entry st port_name
                                     (int (length identifier_list) - 1 - int i)
                                     (identifier_list ! i))
                             [0..<length identifier_list])
           \<and> map assoc_port_index connections
               = map (\<lambda>i. int (length identifier_list) - 1 - int i) (occupied identifier_list)
           \<and> (\<forall>c \<in> set connections. assoc_port_name c = port_name)"
proof -
  from assms obtain identifier_list where
    fl: "create_array_of_net_to_port_assignments concat_array st = Inr identifier_list"
    and loop: "wire_port_loop identifier_list (int (length identifier_list)) 0 port_name [] st
                 = Inr connections"
    by (auto simp: create_wire_port_connections_def split: sum.splits)
  have shape: "identifier_list = concat (map (flattened_entry st) concat_array)"
    using flatten_loop_eq[OF fl[unfolded create_array_of_net_to_port_assignments_def]] by simp
  have entries: "\<forall>e \<in> set identifier_list. single_bit_entry st e"
    unfolding shape using flattened_entry_single_bit by auto
  have len: "length concat_array \<le> length identifier_list"
    unfolding shape by (rule length_concat_nonempty) (rule flattened_entry_nonempty)
  have "connections
          = [] @ concat (map (\<lambda>k. bound_entry st port_name
                                     (int (length identifier_list) - (0 + int k) - 1)
                                     (identifier_list ! k))
                             [0..<length identifier_list])"
    using entries loop by (rule wire_port_loop_bound)
  then have bound: "connections
          = concat (map (\<lambda>i. bound_entry st port_name
                                (int (length identifier_list) - 1 - int i)
                                (identifier_list ! i))
                        [0..<length identifier_list])"
    by (simp add: algebra_simps)
  have indices: "map assoc_port_index connections
                   = map (\<lambda>i. int (length identifier_list) - 1 - int i)
                         (occupied identifier_list)"
    unfolding bound using entries by (rule bound_entry_indices)
  have names: "\<forall>c \<in> set connections. assoc_port_name c = port_name"
    unfolding bound using bound_entry_names by auto
  show ?thesis
    by (intro exI[of _ identifier_list] conjI) (fact fl shape len bound indices names)+
qed

theorem port_binding_witness:
  "create_wire_port_connections
       [Some \<lparr> ident_name = ''a'', ident_indexed = T_TRUE, ident_index = 1 \<rparr>,
        Some \<lparr> ident_name = ''c'', ident_indexed = T_FALSE, ident_index = 0 \<rparr>,
        Some \<lparr> ident_name = ''b'', ident_indexed = T_TRUE, ident_index = 0 \<rparr>] ''p'' abc_nets
     = Inr [\<lparr> assoc_port_name = ''p'', assoc_port_index = 2,
              assoc_associated_net = Some 0, assoc_wire_index = 1 \<rparr>,
            \<lparr> assoc_port_name = ''p'', assoc_port_index = 1,
              assoc_associated_net = Some 2, assoc_wire_index = 0 \<rparr>,
            \<lparr> assoc_port_name = ''p'', assoc_port_index = 0,
              assoc_associated_net = Some 1, assoc_wire_index = 0 \<rparr>]
   \<and> (\<exists>identifier_list.
         create_array_of_net_to_port_assignments
             [Some \<lparr> ident_name = ''a'', ident_indexed = T_TRUE, ident_index = 1 \<rparr>,
              Some \<lparr> ident_name = ''c'', ident_indexed = T_FALSE, ident_index = 0 \<rparr>,
              Some \<lparr> ident_name = ''b'', ident_indexed = T_TRUE, ident_index = 0 \<rparr>] abc_nets
           = Inr identifier_list
         \<and> length identifier_list = 3
         \<and> [2, 1, 0] = map (\<lambda>i. int (length identifier_list) - 1 - int i)
                          (occupied identifier_list))"
proof -
  let ?con = "[Some \<lparr> ident_name = ''a'', ident_indexed = T_TRUE, ident_index = 1 \<rparr>,
               Some \<lparr> ident_name = ''c'', ident_indexed = T_FALSE, ident_index = 0 \<rparr>,
               Some \<lparr> ident_name = ''b'', ident_indexed = T_TRUE, ident_index = 0 \<rparr>]"
  let ?res = "[\<lparr> assoc_port_name = ''p'', assoc_port_index = 2,
                  assoc_associated_net = Some 0, assoc_wire_index = 1 \<rparr>,
               \<lparr> assoc_port_name = ''p'', assoc_port_index = 1,
                  assoc_associated_net = Some 2, assoc_wire_index = 0 \<rparr>,
               \<lparr> assoc_port_name = ''p'', assoc_port_index = 0,
                  assoc_associated_net = Some 1, assoc_wire_index = 0 \<rparr>]"
  have fl: "create_array_of_net_to_port_assignments ?con abc_nets = Inr ?con"
    by (simp add: port_binding_eval abc_pins)
  have run: "create_wire_port_connections ?con ''p'' abc_nets = Inr ?res"
    unfolding create_wire_port_connections_def fl
    by (simp add: port_binding_eval abc_pins)
  from port_binding[OF run] obtain identifier_list where
    a: "create_array_of_net_to_port_assignments ?con abc_nets = Inr identifier_list"
    and b: "map assoc_port_index ?res
              = map (\<lambda>i. int (length identifier_list) - 1 - int i) (occupied identifier_list)"
    by blast
  have same: "identifier_list = ?con" using a fl by simp
  have c: "length identifier_list = 3" unfolding same by simp
  have d: "[2, 1, 0] = map (\<lambda>i. int (length identifier_list) - 1 - int i)
                         (occupied identifier_list)"
    using b by simp
  show ?thesis
    by (rule conjI[OF run], rule exI[of _ identifier_list], intro conjI) (fact a c d)+
qed

subsection \<open>Nodes and modules\<close>


lemmas w_pins = w_net_def vqm_initial_def new_pin_def_def

lemmas add_node_eval =
  add_node_def add_node_loop.simps add_node_expand_loop.simps array_get_def
  insert_element_at_index_def append_array_element_def my_min_def my_abs_def Let_def
  fits_int_def INT_MIN_def INT_MAX_def



text \<open>
  \<^verbatim>\<open>create_node_port_association\<close> returns constructed associations only, and the
  associations of a bus connected as a whole are constructed.
\<close>

lemma create_node_port_association_constructed:
  assumes "create_node_port_association memory port_name port_index (Some pin) wire_index
             = Inr a"
    and "fits_int (pin_left (memory pin) - pin_right (memory pin))"
  shows "constructed memory a"
  using assms
  by (auto simp: create_node_port_association_def constructed_def split: if_splits)





text \<open>
  The expanding branch of the scan of \<^verbatim>\<open>add_node\<close> is taken only by an association
  that \<^verbatim>\<open>create_node_port_association\<close> refuses to build, with port index \<open>- 1\<close> and a
  wire index below the bounds of its bus. On such an association for the bus \<open>w\<close> it
  rewrites the one association it has and adds none; on one for the 4-bit bus \<open>a\<close> it
  yields three associations, the new ones with the array positions as port indices and
  with indeterminate names.
\<close>

lemma add_node_loop_below_two_bit_bus:
  "create_node_port_association (pin_store w_net) ''in'' (- 1) (Some 0) (- 1)
     = Inl Assert_Failed
   \<and> add_node_loop (pin_store w_net) uninitialised 0
         [\<lparr> assoc_port_name = ''in'', assoc_port_index = - 1,
            assoc_associated_net = Some 0, assoc_wire_index = - 1 \<rparr>]
       = Inr [\<lparr> assoc_port_name = ''in'', assoc_port_index = 0,
                assoc_associated_net = Some 0, assoc_wire_index = 1 \<rparr>]"
  by (simp add: create_node_port_association_def add_node_eval w_pins)

lemma add_node_loop_below_four_bit_bus:
  "create_node_port_association (pin_store abc_nets) ''in'' (- 1) (Some 0) (- 1)
     = Inl Assert_Failed
   \<and> add_node_loop (pin_store abc_nets) uninitialised 0
         [\<lparr> assoc_port_name = ''in'', assoc_port_index = - 1,
            assoc_associated_net = Some 0, assoc_wire_index = - 1 \<rparr>]
       = Inr [\<lparr> assoc_port_name = ''in'', assoc_port_index = 2,
                assoc_associated_net = Some 0, assoc_wire_index = 3 \<rparr>,
              \<lparr> assoc_port_name = uninitialised, assoc_port_index = 1,
                assoc_associated_net = Some 0, assoc_wire_index = 2 \<rparr>,
              \<lparr> assoc_port_name = uninitialised, assoc_port_index = 2,
                assoc_associated_net = Some 0, assoc_wire_index = 1 \<rparr>]"
  by (simp add: create_node_port_association_def add_node_eval abc_pins)

text \<open>
  Claim C9, as stated, fails for the cache: \<^verbatim>\<open>add_module\<close> does not touch
  \<^verbatim>\<open>most_recently_used_node\<close>. After a node is declared and the module finished, the
  cache still holds that node.
\<close>

theorem cache_survives_add_module_counterexample:
  "add_node [] ''LUT'' ''n1'' (Some []) w_net
     = Inr (w_net
              \<lparr> node_list := Some
                  [\<lparr> node_type = ''LUT'', node_name = ''n1'', node_array_of_params = [],
                     node_array_of_ports = [] \<rparr>],
                most_recently_used_node := Some
                  \<lparr> node_type = ''LUT'', node_name = ''n1'', node_array_of_params = [],
                    node_array_of_ports = [] \<rparr> \<rparr>)
   \<and> most_recently_used_node
         (add_module ''top''
            (w_net
               \<lparr> node_list := Some
                   [\<lparr> node_type = ''LUT'', node_name = ''n1'', node_array_of_params = [],
                      node_array_of_ports = [] \<rparr>],
                 most_recently_used_node := Some
                   \<lparr> node_type = ''LUT'', node_name = ''n1'', node_array_of_params = [],
                     node_array_of_ports = [] \<rparr> \<rparr>))
       = Some \<lparr> node_type = ''LUT'', node_name = ''n1'', node_array_of_params = [],
                node_array_of_ports = [] \<rparr>"
  by (simp add: add_node_eval add_module_def w_pins)

text \<open>
  Claim C9, amended. \<^verbatim>\<open>add_module\<close> appends exactly one module to the end of the list
  of finished modules, made of the name and of the current net, assignment and node
  sequences, and leaves the net index, the assignment sequence and the node sequence
  NULL; the cache of the most recently used node, the memory of the pins and everything
  else is left as it was.
\<close>

theorem add_module_effect:
  "modules (add_module name st)
     = modules st @ [\<lparr> mod_name = name, mod_array_of_pins = pin_array st,
                       mod_array_of_assignments = assignments st,
                       mod_array_of_nodes = nodes st \<rparr>]
   \<and> module_list (add_module name st) \<noteq> None
   \<and> pin_list (add_module name st) = None
   \<and> assignment_list (add_module name st) = None
   \<and> node_list (add_module name st) = None
   \<and> most_recently_used_node (add_module name st) = most_recently_used_node st
   \<and> pin_store (add_module name st) = pin_store st
   \<and> next_pin (add_module name st) = next_pin st
   \<and> console (add_module name st) = console st
   \<and> yylineno (add_module name st) = yylineno st"
  by (simp add: add_module_def modules_def pin_array_def assignments_def nodes_def
        append_array_element_def)

end
